theory Spec2Isabelle
  imports Main "HOL-Library.Sublist"
begin

section \<open>Resource identifier extraction (\<open>load_data_from_gdrive\<close>, lines 26 to 46)\<close>

text \<open>
  The three regular expressions of the source all have the shape
  \<open>LITERAL([a-zA-Z0-9_-]+)\<close>: a fixed literal followed by one capturing group, a greedy
  non-empty run of identifier characters. Python strings are modelled as \<open>string\<close>; the
  character class and the literals are ASCII, so a code point outside ASCII (several bytes,
  all of them at least 128) is never part of a literal or of a captured group.
\<close>

definition is_id_char :: "char \<Rightarrow> bool" where
  "is_id_char c =
     (let n = (of_char c :: nat)
      in (97 \<le> n \<and> n \<le> 122) \<or> (65 \<le> n \<and> n \<le> 90) \<or> (48 \<le> n \<and> n \<le> 57)
         \<or> c = CHR ''_'' \<or> c = CHR ''-'')"

text \<open>
  \<open>match_at lit s\<close>: the regular expression \<open>lit([a-zA-Z0-9_-]+)\<close> anchored at the start of
  \<open>s\<close>; the result is group 1. The group is greedy and nothing follows it in the pattern,
  so it is the longest run of identifier characters after the literal.
\<close>

definition match_at :: "string \<Rightarrow> string \<Rightarrow> string option" where
  "match_at lit s =
     (if prefix lit s
      then (case takeWhile is_id_char (drop (length lit) s) of
              [] \<Rightarrow> None
            | c # cs \<Rightarrow> Some (c # cs))
      else None)"

text \<open>
  \<open>re_search lit s\<close> is \<open>re.search\<close> followed by \<open>group(1)\<close>: the start positions are
  tried from left to right and the first position with a match wins; \<open>None\<close> is no match.
\<close>

fun re_search :: "string \<Rightarrow> string \<Rightarrow> string option" where
  "re_search lit [] = None"
| "re_search lit (c # cs) =
     (case match_at lit (c # cs) of
        Some g \<Rightarrow> Some g
      | None \<Rightarrow> re_search lit cs)"

definition pattern1 :: string where "pattern1 = ''/file/d/''"
definition pattern2 :: string where "pattern2 = ''id=''"
definition pattern3 :: string where "pattern3 = ''/open?id=''"

text \<open>
  Lines 26 to 46. A captured group is never empty, so the source's test \<open>not file_id\<close> is
  true exactly when \<open>file_id\<close> is still \<open>None\<close>.
\<close>

definition extract_file_id :: "string \<Rightarrow> string option" where
  "extract_file_id gdrive_url =
     (let file_id = None;
          file_id = (case re_search pattern1 gdrive_url of
                       Some g \<Rightarrow> Some g | None \<Rightarrow> file_id);
          file_id = (if file_id = None
                     then (case re_search pattern2 gdrive_url of
                             Some g \<Rightarrow> Some g | None \<Rightarrow> file_id)
                     else file_id);
          file_id = (if file_id = None
                     then (case re_search pattern3 gdrive_url of
                             Some g \<Rightarrow> Some g | None \<Rightarrow> file_id)
                     else file_id)
      in file_id)"

text \<open>The extraction the way the comparison of C10 words it: patterns 1 and 2 only.\<close>

definition extract_file_id_two_patterns :: "string \<Rightarrow> string option" where
  "extract_file_id_two_patterns gdrive_url =
     (case re_search pattern1 gdrive_url of
        Some g \<Rightarrow> Some g
      | None \<Rightarrow> re_search pattern2 gdrive_url)"

section \<open>The Fetcher (\<open>load_data_from_gdrive\<close>, lines 13 to 123)\<close>

text \<open>
  The Fetcher talks to three collaborators that are not part of the repository: the
  transport library \<open>gdown\<close>, the HTTP library \<open>requests\<close>, and the file parsers of
  \<open>pandas\<close>. They are parameters of the model (a record of functions, \<open>world\<close>); the
  local file system is explicit state, and every call that leaves the process or touches
  the disk is recorded in a trace, so that "no network call" and "no file written" are
  statements about the state after the run.

  The source returns \<open>None\<close> on every failure and tells the failures apart by the message
  it shows; the model names each failing branch by the error kind it stands for.
\<close>

datatype exn = AttributeError | OtherException

type_synonym bytes = string
type_synonym filesystem = "string \<rightharpoonup> bytes"

datatype transport_result = Raised exn | Returned "string option"

datatype http_result = HttpRaised | Response nat bytes

datatype parser = DelimitedText | Columnar | Spreadsheet

datatype failure = InvalidReference | DownloadError | UnsupportedFormat | ParseError

datatype event =
    GdownDownload string string
  | RequestsGet string bool
  | FileWrite string bytes
  | ParserCall parser string

record 'df world =
  gdown_download :: "string \<Rightarrow> string \<Rightarrow> filesystem \<Rightarrow> transport_result \<times> filesystem"
  requests_get :: "string \<Rightarrow> http_result"
  open_wb_ok :: "string \<Rightarrow> bool"
  pd_read :: "parser \<Rightarrow> bytes \<Rightarrow> exn + 'df"

record state =
  files :: filesystem
  trace :: "event list"

definition log_event :: "event \<Rightarrow> state \<Rightarrow> state" where
  "log_event e s = s\<lparr>trace := trace s @ [e]\<rparr>"

definition default_output_filename :: string where
  "default_output_filename = ''nyc_taxi_data.csv''"

text \<open>Line 89: \<open>result is None or not os.path.exists(output_filename)\<close>.\<close>

definition check_downloaded :: "string option \<Rightarrow> string \<Rightarrow> state \<Rightarrow> (failure + unit) \<times> state" where
  "check_downloaded result output_filename s =
     (if result = None \<or> files s output_filename = None
      then (Inl DownloadError, s)
      else (Inr (), s))"

text \<open>
  Lines 64 to 96. \<open>gdown.download\<close> either raises or returns the output path (\<open>None\<close> when
  it gave up), and may have written files. Only \<open>AttributeError\<close> leads to the fallback:
  one \<open>requests.get\<close> with \<open>allow_redirects=True\<close> (the flag of the event), the body
  written when the status code is 200, which is the test of success the source makes.
  \<open>open\<close> may raise (\<open>open_wb_ok\<close> false), which the inner handler catches like any other
  exception of the fallback.
\<close>

definition download_stage ::
  "'df world \<Rightarrow> string \<Rightarrow> string \<Rightarrow> state \<Rightarrow> (failure + unit) \<times> state" where
  "download_stage w download_url output_filename s =
     (let s1 = log_event (GdownDownload download_url output_filename) s
      in case gdown_download w download_url output_filename (files s1) of
           (Raised AttributeError, fs) \<Rightarrow>
             (let s2 = log_event (RequestsGet download_url True) (s1\<lparr>files := fs\<rparr>)
              in case requests_get w download_url of
                   HttpRaised \<Rightarrow> (Inl DownloadError, s2)
                 | Response status_code content \<Rightarrow>
                     if status_code = 200
                     then (if open_wb_ok w output_filename
                           then check_downloaded (Some output_filename) output_filename
                                  (log_event (FileWrite output_filename content)
                                     (s2\<lparr>files := (files s2)(output_filename \<mapsto> content)\<rparr>))
                           else (Inl DownloadError, s2))
                     else (Inl DownloadError, s2))
         | (Raised OtherException, fs) \<Rightarrow> (Inl DownloadError, s1\<lparr>files := fs\<rparr>)
         | (Returned result, fs) \<Rightarrow>
             check_downloaded result output_filename (s1\<lparr>files := fs\<rparr>))"

text \<open>
  One parser call. An exception of the parser reaches the outer handler (line 117), which
  returns \<open>None\<close>; a missing file would make the parser raise in the same way.
\<close>

definition run_parser :: "'df world \<Rightarrow> parser \<Rightarrow> string \<Rightarrow> state \<Rightarrow> (failure + 'df) \<times> state" where
  "run_parser w p output_filename s =
     (let s' = log_event (ParserCall p output_filename) s
      in case files s output_filename of
           None \<Rightarrow> (Inl ParseError, s')
         | Some content \<Rightarrow>
             (case pd_read w p content of
                Inl e \<Rightarrow> (Inl ParseError, s')
              | Inr df \<Rightarrow> (Inr df, s')))"

text \<open>Lines 101 to 109: \<open>str.endswith\<close> is \<open>suffix\<close>.\<close>

definition load_by_extension :: "'df world \<Rightarrow> string \<Rightarrow> state \<Rightarrow> (failure + 'df) \<times> state" where
  "load_by_extension w output_filename s =
     (if suffix ''.csv'' output_filename then run_parser w DelimitedText output_filename s
      else if suffix ''.parquet'' output_filename then run_parser w Columnar output_filename s
      else if suffix ''.xlsx'' output_filename \<or> suffix ''.xls'' output_filename
        then run_parser w Spreadsheet output_filename s
      else (Inl UnsupportedFormat, s))"

definition download_url_of :: "string \<Rightarrow> string" where
  "download_url_of file_id = ''https://drive.google.com/uc?id='' @ file_id"

definition load_data_from_gdrive ::
  "'df world \<Rightarrow> string \<Rightarrow> string \<Rightarrow> state \<Rightarrow> (failure + 'df) \<times> state" where
  "load_data_from_gdrive w gdrive_url output_filename s =
     (case extract_file_id gdrive_url of
        None \<Rightarrow> (Inl InvalidReference, s)
      | Some file_id \<Rightarrow>
          (case download_stage w (download_url_of file_id) output_filename s of
             (Inl f, s') \<Rightarrow> (Inl f, s')
           | (Inr u, s') \<Rightarrow> load_by_extension w output_filename s'))"

text \<open>
  Two worlds to run the Fetcher in. In \<open>world_fallback\<close> the primary transport raises
  \<open>AttributeError\<close> and the plain GET answers 200 with a body; in \<open>world_silent\<close> the
  primary transport reports success but leaves no file. The parsers hand the file content
  back as the table.
\<close>

definition world_fallback :: "bytes world" where
  "world_fallback =
     \<lparr>gdown_download = (\<lambda>url out fs. (Raised AttributeError, fs)),
      requests_get = (\<lambda>url. Response 200 ''a,b''),
      open_wb_ok = (\<lambda>out. True),
      pd_read = (\<lambda>p content. Inr content)\<rparr>"

definition world_silent :: "bytes world" where
  "world_silent =
     \<lparr>gdown_download = (\<lambda>url out fs. (Returned (Some out), fs)),
      requests_get = (\<lambda>url. HttpRaised),
      open_wb_ok = (\<lambda>out. True),
      pd_read = (\<lambda>p content. Inr content)\<rparr>"

definition world_primary :: "bytes world" where
  "world_primary =
     \<lparr>gdown_download = (\<lambda>url out fs. (Returned (Some out), fs(out \<mapsto> ''a,b''))),
      requests_get = (\<lambda>url. HttpRaised),
      open_wb_ok = (\<lambda>out. True),
      pd_read = (\<lambda>p content. Inr content)\<rparr>"

definition initial_state :: state where
  "initial_state = \<lparr>files = Map.empty, trace = []\<rparr>"

text \<open>
  Reading a trace: the events a run added, and which of them are transport calls.
\<close>

definition is_transport :: "event \<Rightarrow> bool" where
  "is_transport e = (case e of GdownDownload u f \<Rightarrow> True | RequestsGet u r \<Rightarrow> True | _ \<Rightarrow> False)"

definition new_events :: "state \<Rightarrow> state \<Rightarrow> event list" where
  "new_events s s' = drop (length (trace s)) (trace s')"

definition world_not_found :: "bytes world" where
  "world_not_found =
     \<lparr>gdown_download = (\<lambda>url out fs. (Raised AttributeError, fs)),
      requests_get = (\<lambda>url. Response 404 ''''),
      open_wb_ok = (\<lambda>out. True),
      pd_read = (\<lambda>p content. Inr content)\<rparr>"

definition example_url :: string where
  "example_url = ''https://drive.example.com/file/d/ABC123/view?usp=sharing''"

section \<open>Tables (\<open>pandas.DataFrame\<close>)\<close>

text \<open>
  The Normalizer works on a \<open>pandas.DataFrame\<close>. The model keeps what the source looks at:
  the column labels in their order, the dtype of every column, the values, and the row
  index. A column label is any hashable Python object; \<open>read_excel\<close> (the parser of
  \<open>.xlsx\<close> files) yields an integer label for a numeric header cell, so labels are
  strings or integers. Floating-point values are opaque to the Normalizer (it never
  computes with them), so their type is a parameter \<open>'f\<close>; two values are the same value
  when they are equal, which is how \<open>drop_duplicates\<close> compares (a missing value equals a
  missing value). The missing timestamp \<open>NaT\<close> is \<open>None\<close>.

  A column of dtype \<open>object\<close> holds Python objects: a text, a missing value, or, as
  \<open>read_parquet\<close> produces for a list column, a list or an array, which Python cannot
  hash.
\<close>

datatype label = StrLabel string | IntLabel int

datatype obj = Missing | Text string | ArrayValue "int list"

datatype int_dtype = Int8 | Int16 | Int32 | Int64 | UInt8 | UInt16 | UInt32 | UInt64

datatype 'f series =
    FloatSeries "'f list"
  | IntSeries int_dtype "int list"
  | ObjectSeries "obj list"
  | DatetimeSeries "int option list"

datatype 'f cell =
    FloatCell 'f
  | IntCell int
  | ObjectCell obj
  | DatetimeCell "int option"

fun cells :: "'f series \<Rightarrow> 'f cell list" where
  "cells (FloatSeries xs) = map FloatCell xs"
| "cells (IntSeries d xs) = map IntCell xs"
| "cells (ObjectSeries xs) = map ObjectCell xs"
| "cells (DatetimeSeries xs) = map DatetimeCell xs"

datatype dtype = Float_dtype | Int_dtype int_dtype | Object_dtype | Datetime_dtype

fun dtype_of :: "'f series \<Rightarrow> dtype" where
  "dtype_of (FloatSeries xs) = Float_dtype"
| "dtype_of (IntSeries d xs) = Int_dtype d"
| "dtype_of (ObjectSeries xs) = Object_dtype"
| "dtype_of (DatetimeSeries xs) = Datetime_dtype"

record 'f dataframe =
  index :: "nat list"
  columns :: "(label \<times> 'f series) list"

definition labels :: "'f dataframe \<Rightarrow> label list" where
  "labels df = map fst (columns df)"

text \<open>\<open>len(df)\<close> is the length of the index.\<close>

definition nrows :: "'f dataframe \<Rightarrow> nat" where
  "nrows df = length (index df)"

text \<open>The invariant of a table: every column has one value per row.\<close>

definition well_formed :: "'f dataframe \<Rightarrow> bool" where
  "well_formed df = list_all (\<lambda>(l, s). length (cells s) = length (index df)) (columns df)"

text \<open>
  \<open>df[col]\<close> is the column when exactly one column carries the label, and a sub-table of
  all the columns with that label when the label is repeated. \<open>df[col] = v\<close> replaces the
  columns labelled \<open>col\<close>; the labels and their order stay.
\<close>

text \<open>
  What Python can hash: numbers, texts, timestamps and missing values, but no list and
  no array.
\<close>

fun hashable_cell :: "'f cell \<Rightarrow> bool" where
  "hashable_cell (ObjectCell (ArrayValue xs)) = False"
| "hashable_cell c = True"

definition all_hashable :: "'f dataframe \<Rightarrow> bool" where
  "all_hashable df = list_all (\<lambda>(l, s). list_all hashable_cell (cells s)) (columns df)"

datatype 'f selection = OneSeries "'f series" | SubFrame "'f series list"

definition getitem :: "'f dataframe \<Rightarrow> label \<Rightarrow> 'f selection" where
  "getitem df col =
     (case filter (\<lambda>(l, s). l = col) (columns df) of
        [(l, s)] \<Rightarrow> OneSeries s
      | cs \<Rightarrow> SubFrame (map snd cs))"

definition setitem :: "'f dataframe \<Rightarrow> label \<Rightarrow> 'f series \<Rightarrow> 'f dataframe" where
  "setitem df col v =
     df\<lparr>columns := map (\<lambda>(l, s). if l = col then (l, v) else (l, s)) (columns df)\<rparr>"

section \<open>Numeric coercion (\<open>prepare_taxi_data\<close>, lines 140 to 147)\<close>

definition itemsize :: "int_dtype \<Rightarrow> nat" where
  "itemsize d = (case d of Int8 \<Rightarrow> 1 | UInt8 \<Rightarrow> 1 | Int16 \<Rightarrow> 2 | UInt16 \<Rightarrow> 2
                 | Int32 \<Rightarrow> 4 | UInt32 \<Rightarrow> 4 | Int64 \<Rightarrow> 8 | UInt64 \<Rightarrow> 8)"

definition fits :: "int_dtype \<Rightarrow> int \<Rightarrow> bool" where
  "fits d x = (case d of
       Int8 \<Rightarrow> - (2 ^ 7) \<le> x \<and> x < 2 ^ 7
     | Int16 \<Rightarrow> - (2 ^ 15) \<le> x \<and> x < 2 ^ 15
     | Int32 \<Rightarrow> - (2 ^ 31) \<le> x \<and> x < 2 ^ 31
     | Int64 \<Rightarrow> - (2 ^ 63) \<le> x \<and> x < 2 ^ 63
     | UInt8 \<Rightarrow> 0 \<le> x \<and> x < 2 ^ 8
     | UInt16 \<Rightarrow> 0 \<le> x \<and> x < 2 ^ 16
     | UInt32 \<Rightarrow> 0 \<le> x \<and> x < 2 ^ 32
     | UInt64 \<Rightarrow> 0 \<le> x \<and> x < 2 ^ 64)"

text \<open>
  \<open>downcast='integer'\<close>, after the documentation of \<open>pandas.to_numeric\<close>: the smallest
  signed integer dtype that holds every value, tried from \<open>int8\<close> upwards among the dtypes
  that are not wider than the current one; the dtype stays when none of them does.
\<close>

definition downcast_integer :: "int_dtype \<Rightarrow> int list \<Rightarrow> int_dtype" where
  "downcast_integer d xs =
     (case find (\<lambda>c. itemsize c \<le> itemsize d \<and> list_all (fits c) xs)
             [Int8, Int16, Int32, Int64] of
        Some c \<Rightarrow> c
      | None \<Rightarrow> d)"

definition is_float_dtype :: "'f series \<Rightarrow> bool" where
  "is_float_dtype s = (case s of FloatSeries xs \<Rightarrow> True | _ \<Rightarrow> False)"

definition is_integer_dtype :: "'f series \<Rightarrow> bool" where
  "is_integer_dtype s = (case s of IntSeries d xs \<Rightarrow> True | _ \<Rightarrow> False)"

text \<open>
  \<open>pd.to_numeric(s, errors='coerce')\<close>, with or without \<open>downcast='integer'\<close>, on a series
  that is numeric already, which is the only way the source calls it (lines 142 and 145
  test the dtype first): the values stay, there is nothing to coerce, and only the integer
  dtype may shrink.
\<close>

fun to_numeric :: "bool \<Rightarrow> 'f series \<Rightarrow> 'f series" where
  "to_numeric downcast (IntSeries d xs) =
     (if downcast then IntSeries (downcast_integer d xs) xs else IntSeries d xs)"
| "to_numeric downcast s = s"

text \<open>
  The body of the first loop. On a repeated label \<open>df_clean[col]\<close> is a table, for which
  both dtype tests are false.
\<close>

definition numeric_step :: "label \<Rightarrow> 'f dataframe \<Rightarrow> 'f dataframe" where
  "numeric_step col df_clean =
     (case getitem df_clean col of
        SubFrame ss \<Rightarrow> df_clean
      | OneSeries s \<Rightarrow>
          if is_float_dtype s then setitem df_clean col (to_numeric False s)
          else if is_integer_dtype s then setitem df_clean col (to_numeric True s)
          else df_clean)"

section \<open>Timestamp columns (\<open>prepare_taxi_data\<close>, lines 150 to 157)\<close>

text \<open>
  Two library functions decide what the second pass does, and both are parameters of the
  model, collected in the record \<open>pandas\<close>.

  \<open>str_lower P\<close> is Python's \<open>str.lower\<close>, the lowering of the whole of Unicode, of which
  the repository holds no table. Strings are UTF-8 here, the keywords are ASCII, and a
  byte of an ASCII character occurs in UTF-8 only as that character, so \<open>keyword in name\<close>
  is \<open>sublist\<close> on the bytes.

  \<open>pd.to_datetime(x, errors='coerce')\<close>: what it does to one value, and whether it rejects
  a whole column in spite of \<open>errors='coerce'\<close>, are parameters. \<open>to_timestamp P s c\<close> is
  the timestamp (nanoseconds) of the value \<open>c\<close> of the series \<open>s\<close>, \<open>None\<close> when \<open>c\<close> cannot
  be parsed; \<open>to_datetime_raises P s\<close> says that the call raises on \<open>s\<close>. The rest is
  fixed: a series that holds timestamps already is returned as it is, a table with a
  repeated label cannot be assembled into timestamps and raises, and in every other case
  each value is converted on its own, an unparseable one to \<open>NaT\<close>.
\<close>

record 'f pandas =
  str_lower :: "string \<Rightarrow> string"
  to_datetime_raises :: "'f series \<Rightarrow> bool"
  to_timestamp :: "'f series \<Rightarrow> 'f cell \<Rightarrow> int option"

definition datetime_keywords :: "string list" where
  "datetime_keywords = [''pickup'', ''dropoff'', ''date'', ''time'']"

text \<open>Line 152: \<open>any(keyword in col.lower() for keyword in [...])\<close>.\<close>

definition has_keyword :: "'f pandas \<Rightarrow> string \<Rightarrow> bool" where
  "has_keyword P col = list_ex (\<lambda>keyword. sublist keyword (str_lower P col)) datetime_keywords"

definition to_datetime :: "'f pandas \<Rightarrow> 'f selection \<Rightarrow> exn + 'f series" where
  "to_datetime P arg =
     (case arg of
        SubFrame ss \<Rightarrow> Inl OtherException
      | OneSeries (DatetimeSeries ts) \<Rightarrow> Inr (DatetimeSeries ts)
      | OneSeries s \<Rightarrow>
          if to_datetime_raises P s then Inl OtherException
          else Inr (DatetimeSeries (map (to_timestamp P s) (cells s))))"

text \<open>
  The body of the second loop. \<open>col.lower()\<close> is evaluated outside the \<open>try\<close>; a label that
  is not a string has no such method. The bare \<open>except\<close> swallows whatever \<open>to_datetime\<close>
  raises and the column keeps its value.
\<close>

fun datetime_step :: "'f pandas \<Rightarrow> label \<Rightarrow> 'f dataframe \<Rightarrow> exn + 'f dataframe" where
  "datetime_step P (IntLabel n) df_clean = Inl AttributeError"
| "datetime_step P (StrLabel col) df_clean =
     (if has_keyword P col
      then (case to_datetime P (getitem df_clean (StrLabel col)) of
              Inr v \<Rightarrow> Inr (setitem df_clean (StrLabel col) v)
            | Inl e \<Rightarrow> Inr df_clean)
      else Inr df_clean)"

fun datetime_loop :: "'f pandas \<Rightarrow> label list \<Rightarrow> 'f dataframe \<Rightarrow> exn + 'f dataframe" where
  "datetime_loop P [] df_clean = Inr df_clean"
| "datetime_loop P (col # cols) df_clean =
     (case datetime_step P col df_clean of
        Inl e \<Rightarrow> Inl e
      | Inr df' \<Rightarrow> datetime_loop P cols df')"

section \<open>Duplicate rows (\<open>prepare_taxi_data\<close>, lines 160 to 162)\<close>

definition rows_of :: "'f dataframe \<Rightarrow> 'f cell list list" where
  "rows_of df = map (\<lambda>i. map (\<lambda>(l, s). cells s ! i) (columns df)) [0..<length (index df)]"

text \<open>
  \<open>DataFrame.duplicated()\<close> with the default \<open>keep='first'\<close>: a row is marked when an equal
  row stands before it. \<open>drop_duplicates\<close> keeps the rows that are not marked, with their
  index labels. A table without rows or without columns is returned as it is. On any
  other table the values of every column are hashed, and a value that cannot be hashed
  makes the call raise \<open>TypeError\<close> (here \<open>OtherException\<close>: an exception that is not
  \<open>AttributeError\<close>); line 161 is outside every \<open>try\<close>, so the exception leaves the
  Normalizer.
\<close>

fun duplicated :: "'a list \<Rightarrow> 'a list \<Rightarrow> bool list" where
  "duplicated seen [] = []"
| "duplicated seen (r # rs) = (r \<in> set seen) # duplicated (r # seen) rs"

definition keep :: "bool list \<Rightarrow> 'a list \<Rightarrow> 'a list" where
  "keep dups xs = map snd (filter (\<lambda>(dup, x). \<not> dup) (zip dups xs))"

fun take_rows :: "bool list \<Rightarrow> 'f series \<Rightarrow> 'f series" where
  "take_rows dups (FloatSeries xs) = FloatSeries (keep dups xs)"
| "take_rows dups (IntSeries d xs) = IntSeries d (keep dups xs)"
| "take_rows dups (ObjectSeries xs) = ObjectSeries (keep dups xs)"
| "take_rows dups (DatetimeSeries xs) = DatetimeSeries (keep dups xs)"

definition df_empty :: "'f dataframe \<Rightarrow> bool" where
  "df_empty df = (index df = [] \<or> columns df = [])"

definition drop_duplicates :: "'f dataframe \<Rightarrow> exn + 'f dataframe" where
  "drop_duplicates df =
     (if df_empty df then Inr df
      else if \<not> all_hashable df then Inl OtherException
      else (let dups = duplicated [] (rows_of df)
            in Inr \<lparr>index = keep dups (index df),
                    columns = map (\<lambda>(l, s). (l, take_rows dups s)) (columns df)\<rparr>))"

section \<open>The Normalizer (\<open>prepare_taxi_data\<close>, lines 127 to 170)\<close>

text \<open>
  Both passes over the columns run over \<open>df_clean.columns\<close>, the labels in their order; an assignment to
  an existing column does not change them. The copies of lines 137 and 168 are the
  identity on values, and the note of line 165 about the number of removed rows is shown
  to the user and does not change the result.
\<close>

definition prepare_taxi_data :: "'f pandas \<Rightarrow> 'f dataframe \<Rightarrow> exn + 'f dataframe" where
  "prepare_taxi_data P df =
     (let df_clean = df;
          df_clean = foldl (\<lambda>d col. numeric_step col d) df_clean (map fst (columns df_clean))
      in case datetime_loop P (map fst (columns df_clean)) df_clean of
           Inl e \<Rightarrow> Inl e
         | Inr df_clean \<Rightarrow> drop_duplicates df_clean)"

text \<open>
  What the two passes do to one column: \<open>num_col\<close> is the first pass, \<open>dt_col\<close> the second
  one with its handler, and \<open>coerced\<close> is the table after both passes, before the removal
  of the duplicates. A column with a repeated label is left alone by both passes.
\<close>

definition num_col :: "'f series \<Rightarrow> 'f series" where
  "num_col s = (if is_float_dtype s then to_numeric False s
                else if is_integer_dtype s then to_numeric True s else s)"

definition dt_col :: "'f pandas \<Rightarrow> label \<Rightarrow> 'f series \<Rightarrow> 'f series" where
  "dt_col P l s =
     (case l of
        StrLabel col \<Rightarrow>
          if has_keyword P col
          then (case to_datetime P (OneSeries s) of Inr v \<Rightarrow> v | Inl e \<Rightarrow> s)
          else s
      | IntLabel n \<Rightarrow> s)"

definition coerce_col :: "'f pandas \<Rightarrow> label list \<Rightarrow> label \<times> 'f series \<Rightarrow> label \<times> 'f series" where
  "coerce_col P ls = (\<lambda>(l, s). (l, if count_list ls l = 1 then dt_col P l (num_col s) else s))"

definition coerced :: "'f pandas \<Rightarrow> 'f dataframe \<Rightarrow> 'f dataframe" where
  "coerced P df = df\<lparr>columns := map (coerce_col P (labels df)) (columns df)\<rparr>"

text \<open>
  The table and a column of it after \<open>drop_duplicates\<close>, when that call returns.
\<close>

definition deduplicated :: "'f dataframe \<Rightarrow> 'f dataframe" where
  "deduplicated df =
     (if df_empty df then df
      else \<lparr>index = keep (duplicated [] (rows_of df)) (index df),
            columns = map (\<lambda>(l, s). (l, take_rows (duplicated [] (rows_of df)) s))
                        (columns df)\<rparr>)"

definition dedup_series :: "'f dataframe \<Rightarrow> 'f series \<Rightarrow> 'f series" where
  "dedup_series df s = (if df_empty df then s else take_rows (duplicated [] (rows_of df)) s)"

fun is_str :: "label \<Rightarrow> bool" where
  "is_str (StrLabel col) = True"
| "is_str (IntLabel n) = False"

text \<open>
  The one property of \<open>to_datetime\<close> that the idempotence of the Normalizer rests on:
  whether it rejects a column depends on the dtype and on which values occur in it, not
  on how often or where they occur.
\<close>

definition raising_depends_on_values :: "'f pandas \<Rightarrow> bool" where
  "raising_depends_on_values P =
     (\<forall>s s'. dtype_of s = dtype_of s' \<and> set (cells s) = set (cells s')
        \<longrightarrow> to_datetime_raises P s = to_datetime_raises P s')"

text \<open>Notions of the proofs: one column changed in place, and the positions that are kept.\<close>

definition apply_at ::
  "(label \<Rightarrow> 'f series \<Rightarrow> 'f series) \<Rightarrow> label \<Rightarrow> 'f dataframe \<Rightarrow> 'f dataframe" where
  "apply_at f col df =
     df\<lparr>columns := map (\<lambda>(l, s). if l = col \<and> count_list (labels df) l = 1 then (l, f l s)
                                else (l, s))
                       (columns df)\<rparr>"

definition apply_all ::
  "(label \<Rightarrow> 'f series \<Rightarrow> 'f series) \<Rightarrow> label list \<Rightarrow> 'f dataframe \<Rightarrow> 'f dataframe" where
  "apply_all f ls df =
     df\<lparr>columns := map (\<lambda>(l, s). if l \<in> set ls \<and> count_list (labels df) l = 1 then (l, f l s)
                                else (l, s))
                       (columns df)\<rparr>"

definition kept :: "bool list \<Rightarrow> nat list" where
  "kept dups = filter (\<lambda>i. \<not> dups ! i) [0..<length dups]"

text \<open>
  Tables to run the Normalizer on. In \<open>example_pandas\<close> the lowering is that of the ASCII
  letters and of the Kelvin sign (U+212A, in UTF-8 the bytes 226, 132, 170), which
  \<open>str.lower\<close> maps to \<open>k\<close>; two texts parse as timestamps, numbers are taken as
  nanoseconds, and a text column with a missing value is rejected as a whole.
  \<open>example_df\<close> has five rows, the first and the fourth equal, and one malformed pickup
  time; \<open>example_clean\<close> is what the Normalizer makes of it. \<open>numeric_header_df\<close> has an
  integer label, \<open>repeated_label_df\<close> a label that occurs twice, and \<open>list_column_df\<close> a
  column of lists. In these examples the floating-point values are written as integers.
\<close>

definition lower_char :: "char \<Rightarrow> char" where
  "lower_char c =
     (let n = (of_char c :: nat) in if 65 \<le> n \<and> n \<le> 90 then char_of (n + 32) else c)"

fun example_lower :: "string \<Rightarrow> string" where
  "example_lower (a # b # c # cs) =
     (if (of_char a :: nat) = 226 \<and> (of_char b :: nat) = 132 \<and> (of_char c :: nat) = 170
      then CHR ''k'' # example_lower cs
      else lower_char a # example_lower (b # c # cs))"
| "example_lower cs = map lower_char cs"


definition example_pandas :: "int pandas" where
  "example_pandas =
     \<lparr>str_lower = example_lower,
      to_datetime_raises = (\<lambda>s. ObjectCell Missing \<in> set (cells s)),
      to_timestamp = (\<lambda>s c. case c of
          ObjectCell (Text x) \<Rightarrow>
            (if x = ''2023-01-01 00:00:00'' then Some 1672531200000000000
             else if x = ''2023-01-01 00:10:00'' then Some 1672531800000000000
             else None)
        | IntCell v \<Rightarrow> Some v
        | FloatCell v \<Rightarrow> Some v
        | _ \<Rightarrow> None)\<rparr>"

definition example_df :: "int dataframe" where
  "example_df =
     \<lparr>index = [0, 1, 2, 3, 4],
      columns =
        [(StrLabel ''VendorID'', IntSeries Int64 [1, 2, 1, 1, 2]),
         (StrLabel ''tpep_pickup_datetime'',
            ObjectSeries [Text ''2023-01-01 00:00:00'', Text ''not a time'',
                          Text ''2023-01-01 00:10:00'', Text ''2023-01-01 00:00:00'',
                          Text ''2023-01-01 00:10:00'']),
         (StrLabel ''fare_amount'', FloatSeries [125, 80, 300, 125, 95]),
         (StrLabel ''Dropoff_Note'',
            ObjectSeries [Text ''a'', Missing, Text ''b'', Text ''a'', Text ''b''])]\<rparr>"

definition example_clean :: "int dataframe" where
  "example_clean =
     \<lparr>index = [0, 1, 2, 4],
      columns =
        [(StrLabel ''VendorID'', IntSeries Int8 [1, 2, 1, 2]),
         (StrLabel ''tpep_pickup_datetime'',
            DatetimeSeries [Some 1672531200000000000, None, Some 1672531800000000000,
                            Some 1672531800000000000]),
         (StrLabel ''fare_amount'', FloatSeries [125, 80, 300, 95]),
         (StrLabel ''Dropoff_Note'', ObjectSeries [Text ''a'', Missing, Text ''b'', Text ''b''])]\<rparr>"

definition numeric_header_df :: "int dataframe" where
  "numeric_header_df =
     \<lparr>index = [0, 1],
      columns = [(StrLabel ''zone'', ObjectSeries [Text ''A'', Text ''B'']),
                 (IntLabel 2020, IntSeries Int64 [10, 20])]\<rparr>"


definition list_column_df :: "int dataframe" where
  "list_column_df =
     \<lparr>index = [0, 1],
      columns = [(StrLabel ''zone'', ObjectSeries [Text ''A'', Text ''B'']),
                 (StrLabel ''stops'', ObjectSeries [ArrayValue [1, 2], ArrayValue [3]])]\<rparr>"



section \<open>Properties of the extraction\<close>

lemma match_at_Some_iff:
  "match_at lit s = Some g \<longleftrightarrow>
     prefix lit s \<and> g \<noteq> [] \<and> g = takeWhile is_id_char (drop (length lit) s)"
  by (auto simp: match_at_def split: list.splits)

lemma match_at_append_literal:
  assumes "match_at (p @ lit) s = Some g"
  shows "match_at lit (drop (length p) s) = Some g"
proof -
  from assms have pre: "prefix (p @ lit) s" and ne: "g \<noteq> []"
    and g: "g = takeWhile is_id_char (drop (length (p @ lit)) s)"
    unfolding match_at_Some_iff by blast+
  from pre obtain r where s: "s = p @ lit @ r" by (auto simp: prefix_def)
  show ?thesis using ne g by (simp add: match_at_Some_iff s)
qed

lemma re_search_None_iff:
  "re_search lit s = None \<longleftrightarrow> (\<forall>k < length s. match_at lit (drop k s) = None)"
proof (induction s)
  case Nil
  show ?case by simp
next
  case (Cons c cs)
  show ?case
  proof (cases "match_at lit (c # cs)")
    case (Some g)
    then have "match_at lit (drop 0 (c # cs)) \<noteq> None" by simp
    then have "\<not> (\<forall>k < length (c # cs). match_at lit (drop k (c # cs)) = None)"
      by (metis length_greater_0_conv list.distinct(1))
    with Some show ?thesis by simp
  next
    case None
    have "(\<forall>k < length (c # cs). match_at lit (drop k (c # cs)) = None)
            \<longleftrightarrow> (\<forall>k < length cs. match_at lit (drop k cs) = None)"
      (is "?L \<longleftrightarrow> ?R")
    proof
      assume l: ?L
      show ?R
      proof (intro allI impI)
        fix k assume "k < length cs"
        then have "Suc k < length (c # cs)" by simp
        with l have "match_at lit (drop (Suc k) (c # cs)) = None" by blast
        then show "match_at lit (drop k cs) = None" by simp
      qed
    next
      assume r: ?R
      show ?L
      proof (intro allI impI)
        fix k assume k: "k < length (c # cs)"
        show "match_at lit (drop k (c # cs)) = None"
        proof (cases k)
          case 0
          with None show ?thesis by simp
        next
          case (Suc j)
          with k r show ?thesis by simp
        qed
      qed
    qed
    with None Cons.IH show ?thesis by simp
  qed
qed

lemma re_search_Some_leftmost:
  "re_search lit s = Some g \<Longrightarrow>
     \<exists>k < length s. match_at lit (drop k s) = Some g
        \<and> (\<forall>j < k. match_at lit (drop j s) = None)"
proof (induction s)
  case Nil
  then show ?case by simp
next
  case (Cons c cs)
  show ?case
  proof (cases "match_at lit (c # cs)")
    case (Some h)
    with Cons.prems have "h = g" by simp
    with Some have "match_at lit (drop 0 (c # cs)) = Some g" by simp
    then show ?thesis by (intro exI [of _ 0]) simp
  next
    case None
    with Cons.prems have "re_search lit cs = Some g" by simp
    from Cons.IH [OF this] obtain k where k: "k < length cs"
      and m: "match_at lit (drop k cs) = Some g"
      and l: "\<forall>j < k. match_at lit (drop j cs) = None" by blast
    have "\<forall>j < Suc k. match_at lit (drop j (c # cs)) = None"
    proof (intro allI impI)
      fix j assume j: "j < Suc k"
      show "match_at lit (drop j (c # cs)) = None"
      proof (cases j)
        case 0
        with None show ?thesis by simp
      next
        case (Suc i)
        with j l show ?thesis by simp
      qed
    qed
    with k m show ?thesis by (intro exI [of _ "Suc k"]) simp
  qed
qed

lemma match_at_captured:
  assumes "match_at lit s = Some g"
  shows "\<exists>post. s = lit @ g @ post \<and> g \<noteq> [] \<and> (\<forall>c \<in> set g. is_id_char c)
           \<and> (post = [] \<or> \<not> is_id_char (hd post))"
proof -
  from assms have pre: "prefix lit s" and ne: "g \<noteq> []"
    and g: "g = takeWhile is_id_char (drop (length lit) s)"
    unfolding match_at_Some_iff by blast+
  from pre obtain r where s: "s = lit @ r" by (auto simp: prefix_def)
  with g have g': "g = takeWhile is_id_char r" by simp
  have r: "r = g @ dropWhile is_id_char r" by (simp add: g')
  have all: "\<forall>c \<in> set g. is_id_char c" unfolding g' by (auto dest: set_takeWhileD)
  have stop: "dropWhile is_id_char r = [] \<or> \<not> is_id_char (hd (dropWhile is_id_char r))"
    by (metis hd_dropWhile)
  from s r have "s = lit @ g @ dropWhile is_id_char r" by simp
  with ne all stop show ?thesis by blast
qed

lemma re_search_captured:
  assumes "re_search lit s = Some g"
  shows "\<exists>pre post. s = pre @ lit @ g @ post \<and> g \<noteq> [] \<and> (\<forall>c \<in> set g. is_id_char c)
           \<and> (post = [] \<or> \<not> is_id_char (hd post))
           \<and> (\<forall>j < length pre. match_at lit (drop j s) = None)"
proof -
  from re_search_Some_leftmost [OF assms] obtain k where k: "k < length s"
    and m: "match_at lit (drop k s) = Some g"
    and l: "\<forall>j < k. match_at lit (drop j s) = None" by blast
  from match_at_captured [OF m] obtain post where d: "drop k s = lit @ g @ post"
    and rest: "g \<noteq> []" "\<forall>c \<in> set g. is_id_char c" "post = [] \<or> \<not> is_id_char (hd post)"
    by blast
  have "s = take k s @ lit @ g @ post" using d by (metis append_take_drop_id)
  moreover have "length (take k s) = k" using k by simp
  ultimately show ?thesis using rest l by metis
qed

lemma pattern3_implies_pattern2:
  assumes "re_search pattern3 s \<noteq> None"
  shows "re_search pattern2 s \<noteq> None"
proof -
  from assms obtain k where k: "k < length s"
    and m: "match_at pattern3 (drop k s) \<noteq> None"
    by (auto simp: re_search_None_iff)
  then obtain g where g: "match_at (''/open?'' @ pattern2) (drop k s) = Some g"
    by (auto simp: pattern3_def pattern2_def)
  have six: "length ''/open?'' = 6" by simp
  have "match_at pattern2 (drop 6 (drop k s)) = Some g"
    using match_at_append_literal [OF g] unfolding six .
  then have m2: "match_at pattern2 (drop (k + 6) s) = Some g"
    by (simp only: drop_drop add.commute)
  have "k + 6 < length s"
  proof (rule ccontr)
    assume "\<not> k + 6 < length s"
    then have "drop (k + 6) s = []" by simp
    with m2 show False by (simp add: match_at_def pattern2_def)
  qed
  with m2 show ?thesis by (auto simp: re_search_None_iff)
qed


section \<open>Claims about the extraction\<close>

text \<open>
  C2. The patterns are tried in the fixed order \<open>/file/d/ID\<close>, \<open>id=ID\<close>, \<open>/open?id=ID\<close>.
  When \<open>lit\<close> is the first of the three that matches the reference, the extracted
  identifier is the group captured by \<open>lit\<close>, whatever the later patterns would capture,
  and it is exactly the identifier substring: the reference reads \<open>pre @ lit @ g @ post\<close>
  with \<open>g\<close> a non-empty run of identifier characters that cannot be extended to the right,
  at the leftmost position where \<open>lit\<close> matches. The reference of the scenario yields
  \<open>ABC123\<close>.
\<close>

theorem extract_file_id_first_match_wins:
  assumes "find (\<lambda>lit. re_search lit url \<noteq> None) [pattern1, pattern2, pattern3] = Some lit"
  shows "extract_file_id url = re_search lit url
    \<and> (\<exists>g pre post. extract_file_id url = Some g \<and> url = pre @ lit @ g @ post \<and> g \<noteq> []
          \<and> (\<forall>c \<in> set g. is_id_char c) \<and> (post = [] \<or> \<not> is_id_char (hd post))
          \<and> (\<forall>j < length pre. match_at lit (drop j url) = None))
    \<and> extract_file_id ''https://drive.example.com/file/d/ABC123/view?usp=sharing''
          = Some ''ABC123''"
proof -
  have first: "extract_file_id url = re_search lit url"
    using assms by (auto simp: extract_file_id_def split: if_splits option.splits)
  from assms have "re_search lit url \<noteq> None"
    by (auto split: if_splits)
  then obtain g where g: "re_search lit url = Some g" by blast
  from re_search_captured [OF g] first g
  have captured: "\<exists>g pre post. extract_file_id url = Some g \<and> url = pre @ lit @ g @ post
          \<and> g \<noteq> [] \<and> (\<forall>c \<in> set g. is_id_char c) \<and> (post = [] \<or> \<not> is_id_char (hd post))
          \<and> (\<forall>j < length pre. match_at lit (drop j url) = None)"
    by auto
  have example: "extract_file_id ''https://drive.example.com/file/d/ABC123/view?usp=sharing''
          = Some ''ABC123''"
    by code_simp
  from first captured example show ?thesis by blast
qed

theorem extract_file_id_first_match_wins_witness:
  "find (\<lambda>lit. re_search lit ''https://drive.example.com/uc?id=XYZ789'' \<noteq> None)
      [pattern1, pattern2, pattern3] = Some pattern2
   \<and> extract_file_id ''https://drive.example.com/uc?id=XYZ789'' = Some ''XYZ789''"
proof -
  have h: "find (\<lambda>lit. re_search lit ''https://drive.example.com/uc?id=XYZ789'' \<noteq> None)
      [pattern1, pattern2, pattern3] = Some pattern2"
    by code_simp
  have v: "re_search pattern2 ''https://drive.example.com/uc?id=XYZ789'' = Some ''XYZ789''"
    by code_simp
  from extract_file_id_first_match_wins [OF h] h v show ?thesis by simp
qed

text \<open>
  C10. Whenever the third pattern matches a reference, the second one matches it too (the
  literal of the second is the end of the literal of the third) and is tried first: the
  extraction with the three patterns equals the extraction with patterns 1 and 2 only.
\<close>

theorem third_pattern_never_decides:
  "extract_file_id url = extract_file_id_two_patterns url
   \<and> (re_search pattern3 url \<noteq> None \<longrightarrow> re_search pattern2 url \<noteq> None)"
proof -
  have imp: "re_search pattern3 url \<noteq> None \<longrightarrow> re_search pattern2 url \<noteq> None"
    using pattern3_implies_pattern2 by blast
  then have "extract_file_id url = extract_file_id_two_patterns url"
    by (cases "re_search pattern3 url")
       (auto simp: extract_file_id_def extract_file_id_two_patterns_def split: option.splits)
  with imp show ?thesis by blast
qed

theorem third_pattern_never_decides_witness:
  "re_search pattern3 ''https://drive.google.com/open?id=XYZ789'' \<noteq> None
   \<and> re_search pattern2 ''https://drive.google.com/open?id=XYZ789'' = Some ''XYZ789''
   \<and> extract_file_id ''https://drive.google.com/open?id=XYZ789'' = Some ''XYZ789''
   \<and> extract_file_id_two_patterns ''https://drive.google.com/open?id=XYZ789'' = Some ''XYZ789''"
proof -
  have p3: "re_search pattern3 ''https://drive.google.com/open?id=XYZ789'' \<noteq> None"
    by code_simp
  have p2: "re_search pattern2 ''https://drive.google.com/open?id=XYZ789'' = Some ''XYZ789''"
    by code_simp
  have e2: "extract_file_id_two_patterns ''https://drive.google.com/open?id=XYZ789''
              = Some ''XYZ789''"
    by code_simp
  from third_pattern_never_decides [of "''https://drive.google.com/open?id=XYZ789''"] p3 p2 e2
  show ?thesis by simp
qed

section \<open>Properties of the Fetcher\<close>

lemma suffix_csv_not_others:
  "suffix ''.csv'' f \<Longrightarrow> \<not> suffix ''.parquet'' f \<and> \<not> suffix ''.xlsx'' f \<and> \<not> suffix ''.xls'' f"
  by (auto simp: suffix_def)

lemma suffix_parquet_not_others:
  "suffix ''.parquet'' f \<Longrightarrow> \<not> suffix ''.csv'' f \<and> \<not> suffix ''.xlsx'' f \<and> \<not> suffix ''.xls'' f"
  by (auto simp: suffix_def)

lemma state_update_literal [simp]:
  "s\<lparr>files := a, trace := b\<rparr> = \<lparr>files = a, trace = b\<rparr>"
  by (cases s) simp

lemma new_events_log [simp]:
  "new_events s (log_event e s') = new_events s s' @ [e]" if "length (trace s) \<le> length (trace s')"
  using that by (simp add: new_events_def log_event_def)

lemma run_parser_state:
  "snd (run_parser w p f s) = log_event (ParserCall p f) s"
  by (simp add: run_parser_def Let_def split: option.splits sum.splits)

lemma load_by_extension_state:
  "snd (load_by_extension w f s) = s \<or> (\<exists>p. snd (load_by_extension w f s) = log_event (ParserCall p f) s)"
  by (auto simp: load_by_extension_def run_parser_state)

lemma load_by_extension_transport:
  "filter is_transport (new_events s0 (snd (load_by_extension w f s))) = filter is_transport (new_events s0 s)"
  if "length (trace s0) \<le> length (trace s)"
  using load_by_extension_state [of w f s] that
  by (auto simp: is_transport_def)

lemma load_by_extension_files:
  "files (snd (load_by_extension w f s)) = files s"
  using load_by_extension_state [of w f s] by (auto simp: log_event_def)

lemma example_url_id: "extract_file_id example_url = Some ''ABC123''"
  unfolding example_url_def by code_simp

lemma world_primary_download:
  "download_stage world_primary (download_url_of ''ABC123'') out initial_state
     = (Inr (), \<lparr>files = [out \<mapsto> ''a,b''],
                 trace = [GdownDownload (download_url_of ''ABC123'') out]\<rparr>)"
  by (simp add: download_stage_def world_primary_def initial_state_def log_event_def
        check_downloaded_def)

section \<open>Claims about the Fetcher\<close>

text \<open>
  C3. A reference that none of the three patterns matches makes the Fetcher return
  \<open>InvalidReference\<close> in the state it started in: the trace gains no event (no transport
  call, no file write, no parser call) and the file system is unchanged. The scenario
  reference \<open>not-a-url\<close> is such a reference.
\<close>

theorem no_pattern_invalid_reference:
  assumes "re_search pattern1 url = None" and "re_search pattern2 url = None"
    and "re_search pattern3 url = None"
  shows "load_data_from_gdrive w url out s = (Inl InvalidReference, s)"
  using assms by (simp add: load_data_from_gdrive_def extract_file_id_def)

theorem no_pattern_invalid_reference_witness:
  "re_search pattern1 ''not-a-url'' = None \<and> re_search pattern2 ''not-a-url'' = None
   \<and> re_search pattern3 ''not-a-url'' = None
   \<and> load_data_from_gdrive world_primary ''not-a-url'' default_output_filename initial_state
        = (Inl InvalidReference, initial_state)
   \<and> trace initial_state = [] \<and> files initial_state default_output_filename = None"
proof -
  have h1: "re_search pattern1 ''not-a-url'' = None" by code_simp
  have h2: "re_search pattern2 ''not-a-url'' = None" by code_simp
  have h3: "re_search pattern3 ''not-a-url'' = None" by code_simp
  from no_pattern_invalid_reference [OF h1 h2 h3] h1 h2 h3
  show ?thesis by (simp add: initial_state_def)
qed

text \<open>
  C4. After a successful download the result is decided by the ending of the local file
  name: \<open>.csv\<close> calls the delimited-text parser, \<open>.parquet\<close> the columnar parser,
  \<open>.xlsx\<close> or \<open>.xls\<close> the spreadsheet parser, each on the state the download left; any
  other name gives \<open>UnsupportedFormat\<close> in that very state, so without a parser call.
\<close>

theorem dispatch_on_extension:
  assumes "extract_file_id url = Some file_id"
    and "download_stage w (download_url_of file_id) out s = (Inr (), s')"
  shows "(suffix ''.csv'' out \<longrightarrow>
            load_data_from_gdrive w url out s = run_parser w DelimitedText out s')
       \<and> (suffix ''.parquet'' out \<longrightarrow>
            load_data_from_gdrive w url out s = run_parser w Columnar out s')
       \<and> (suffix ''.xlsx'' out \<or> suffix ''.xls'' out \<longrightarrow>
            load_data_from_gdrive w url out s = run_parser w Spreadsheet out s')
       \<and> (\<not> suffix ''.csv'' out \<and> \<not> suffix ''.parquet'' out
            \<and> \<not> suffix ''.xlsx'' out \<and> \<not> suffix ''.xls'' out \<longrightarrow>
            load_data_from_gdrive w url out s = (Inl UnsupportedFormat, s'))"
proof -
  have l: "load_data_from_gdrive w url out s = load_by_extension w out s'"
    using assms by (simp add: load_data_from_gdrive_def)
  show ?thesis unfolding l load_by_extension_def
    using suffix_csv_not_others [of out] suffix_parquet_not_others [of out] by auto
qed

theorem dispatch_on_extension_witness:
  "load_data_from_gdrive world_primary example_url ''nyc_taxi_data.csv'' initial_state
     = (Inr ''a,b'',
        \<lparr>files = [''nyc_taxi_data.csv'' \<mapsto> ''a,b''],
         trace = [GdownDownload (download_url_of ''ABC123'') ''nyc_taxi_data.csv'',
                  ParserCall DelimitedText ''nyc_taxi_data.csv'']\<rparr>)
   \<and> load_data_from_gdrive world_primary example_url ''nyc_taxi_data.parquet'' initial_state
     = (Inr ''a,b'',
        \<lparr>files = [''nyc_taxi_data.parquet'' \<mapsto> ''a,b''],
         trace = [GdownDownload (download_url_of ''ABC123'') ''nyc_taxi_data.parquet'',
                  ParserCall Columnar ''nyc_taxi_data.parquet'']\<rparr>)
   \<and> load_data_from_gdrive world_primary example_url ''nyc_taxi_data.xlsx'' initial_state
     = (Inr ''a,b'',
        \<lparr>files = [''nyc_taxi_data.xlsx'' \<mapsto> ''a,b''],
         trace = [GdownDownload (download_url_of ''ABC123'') ''nyc_taxi_data.xlsx'',
                  ParserCall Spreadsheet ''nyc_taxi_data.xlsx'']\<rparr>)
   \<and> load_data_from_gdrive world_primary example_url ''nyc_taxi_data.json'' initial_state
     = (Inl UnsupportedFormat,
        \<lparr>files = [''nyc_taxi_data.json'' \<mapsto> ''a,b''],
         trace = [GdownDownload (download_url_of ''ABC123'') ''nyc_taxi_data.json'']\<rparr>)"
proof -
  have csv: "suffix ''.csv'' ''nyc_taxi_data.csv''" by code_simp
  have parquet: "suffix ''.parquet'' ''nyc_taxi_data.parquet''" by code_simp
  have xlsx: "suffix ''.xlsx'' ''nyc_taxi_data.xlsx''" by code_simp
  have json: "\<not> suffix ''.csv'' ''nyc_taxi_data.json''" "\<not> suffix ''.parquet'' ''nyc_taxi_data.json''"
     "\<not> suffix ''.xlsx'' ''nyc_taxi_data.json''" "\<not> suffix ''.xls'' ''nyc_taxi_data.json''"
    by code_simp+
  have run: "run_parser world_primary p out
               \<lparr>files = [out \<mapsto> ''a,b''], trace = [GdownDownload (download_url_of ''ABC123'') out]\<rparr>
             = (Inr ''a,b'', \<lparr>files = [out \<mapsto> ''a,b''],
                  trace = [GdownDownload (download_url_of ''ABC123'') out, ParserCall p out]\<rparr>)"
    for p out
    by (simp add: run_parser_def world_primary_def log_event_def)
  from dispatch_on_extension [OF example_url_id world_primary_download [of "''nyc_taxi_data.csv''"]]
       dispatch_on_extension [OF example_url_id world_primary_download [of "''nyc_taxi_data.parquet''"]]
       dispatch_on_extension [OF example_url_id world_primary_download [of "''nyc_taxi_data.xlsx''"]]
       dispatch_on_extension [OF example_url_id world_primary_download [of "''nyc_taxi_data.json''"]]
       csv parquet xlsx json
  show ?thesis by (simp only: run simp_thms)
qed

text \<open>
  C8. When the primary transport raises \<open>AttributeError\<close>, the run makes exactly two
  transport calls, the primary one and then one plain GET of the same address, and no
  further one. If the GET answers 200 and the file can be opened, the body is written as
  it is to the local file and the run goes on to the parsing of that file; a status other
  than 200 or an exception of the fallback gives \<open>DownloadError\<close>, with nothing written.
\<close>

theorem fallback_once:
  assumes id: "extract_file_id url = Some file_id"
    and raised: "gdown_download w (download_url_of file_id) out (files s) = (Raised AttributeError, fs)"
  shows "filter is_transport (new_events s (snd (load_data_from_gdrive w url out s)))
           = [GdownDownload (download_url_of file_id) out, RequestsGet (download_url_of file_id) True]
    \<and> (\<forall>body. requests_get w (download_url_of file_id) = Response 200 body \<and> open_wb_ok w out \<longrightarrow>
          load_data_from_gdrive w url out s
            = load_by_extension w out
                \<lparr>files = fs(out \<mapsto> body),
                 trace = trace s @ [GdownDownload (download_url_of file_id) out,
                                    RequestsGet (download_url_of file_id) True, FileWrite out body]\<rparr>
          \<and> files (snd (load_data_from_gdrive w url out s)) out = Some body)
    \<and> ((\<forall>body. requests_get w (download_url_of file_id) = Response 200 body \<longrightarrow> \<not> open_wb_ok w out) \<longrightarrow>
          load_data_from_gdrive w url out s
            = (Inl DownloadError,
               \<lparr>files = fs,
                trace = trace s @ [GdownDownload (download_url_of file_id) out,
                                   RequestsGet (download_url_of file_id) True]\<rparr>))"
proof -
  let ?u = "download_url_of file_id"
  let ?s2 = "\<lparr>files = fs, trace = trace s @ [GdownDownload ?u out, RequestsGet ?u True]\<rparr>"
  have fail: "load_data_from_gdrive w url out s = (Inl DownloadError, ?s2)"
    if "\<forall>body. requests_get w ?u = Response 200 body \<longrightarrow> \<not> open_wb_ok w out"
    using that id raised
    by (cases "requests_get w ?u")
       (auto simp: load_data_from_gdrive_def download_stage_def log_event_def Let_def)
  have ok: "load_data_from_gdrive w url out s
            = load_by_extension w out
                \<lparr>files = fs(out \<mapsto> body), trace = trace s @ [GdownDownload ?u out, RequestsGet ?u True, FileWrite out body]\<rparr>"
    if "requests_get w ?u = Response 200 body" "open_wb_ok w out" for body
    using that id raised
    by (simp add: load_data_from_gdrive_def download_stage_def log_event_def Let_def
          check_downloaded_def)
  have tr: "filter is_transport (new_events s (snd (load_data_from_gdrive w url out s)))
           = [GdownDownload ?u out, RequestsGet ?u True]"
  proof (cases "\<exists>body. requests_get w ?u = Response 200 body \<and> open_wb_ok w out")
    case True
    then obtain body where b: "requests_get w ?u = Response 200 body" "open_wb_ok w out" by blast
    show ?thesis unfolding ok [OF b]
      by (subst load_by_extension_transport) (simp_all add: new_events_def is_transport_def)
  next
    case False
    then have "\<forall>body. requests_get w ?u = Response 200 body \<longrightarrow> \<not> open_wb_ok w out" by blast
    from fail [OF this] show ?thesis by (simp add: new_events_def is_transport_def)
  qed
  have fl: "files (snd (load_data_from_gdrive w url out s)) out = Some body"
    if "requests_get w ?u = Response 200 body" "open_wb_ok w out" for body
    unfolding ok [OF that] by (simp add: load_by_extension_files)
  from tr ok fl fail show ?thesis by blast
qed

theorem fallback_once_witness:
  "load_data_from_gdrive world_fallback example_url default_output_filename initial_state
     = (Inr ''a,b'',
        \<lparr>files = [default_output_filename \<mapsto> ''a,b''],
         trace = [GdownDownload (download_url_of ''ABC123'') default_output_filename,
                  RequestsGet (download_url_of ''ABC123'') True,
                  FileWrite default_output_filename ''a,b'',
                  ParserCall DelimitedText default_output_filename]\<rparr>)
   \<and> load_data_from_gdrive world_not_found example_url default_output_filename initial_state
     = (Inl DownloadError,
        \<lparr>files = Map.empty,
         trace = [GdownDownload (download_url_of ''ABC123'') default_output_filename,
                  RequestsGet (download_url_of ''ABC123'') True]\<rparr>)"
proof -
  have r1: "gdown_download world_fallback (download_url_of ''ABC123'') default_output_filename
              (files initial_state) = (Raised AttributeError, Map.empty)"
    by (simp add: world_fallback_def initial_state_def)
  have r2: "gdown_download world_not_found (download_url_of ''ABC123'') default_output_filename
              (files initial_state) = (Raised AttributeError, Map.empty)"
    by (simp add: world_not_found_def initial_state_def)
  have g1: "requests_get world_fallback (download_url_of ''ABC123'') = Response 200 ''a,b''
            \<and> open_wb_ok world_fallback default_output_filename"
    by (simp add: world_fallback_def)
  have g2: "\<forall>body. requests_get world_not_found (download_url_of ''ABC123'') = Response 200 body
              \<longrightarrow> \<not> open_wb_ok world_not_found default_output_filename"
    by (simp add: world_not_found_def)
  have csv: "suffix ''.csv'' default_output_filename"
    unfolding default_output_filename_def by code_simp
  have p: "load_by_extension world_fallback default_output_filename
             \<lparr>files = [default_output_filename \<mapsto> ''a,b''],
              trace = trace initial_state @ [GdownDownload (download_url_of ''ABC123'') default_output_filename,
                  RequestsGet (download_url_of ''ABC123'') True,
                  FileWrite default_output_filename ''a,b'']\<rparr>
           = (Inr ''a,b'',
        \<lparr>files = [default_output_filename \<mapsto> ''a,b''],
         trace = [GdownDownload (download_url_of ''ABC123'') default_output_filename,
                  RequestsGet (download_url_of ''ABC123'') True,
                  FileWrite default_output_filename ''a,b'',
                  ParserCall DelimitedText default_output_filename]\<rparr>)"
    using csv by (simp add: load_by_extension_def run_parser_def world_fallback_def
        log_event_def initial_state_def)
  from fallback_once [OF example_url_id r1] g1
  have a: "load_data_from_gdrive world_fallback example_url default_output_filename initial_state
     = (Inr ''a,b'',
        \<lparr>files = [default_output_filename \<mapsto> ''a,b''],
         trace = [GdownDownload (download_url_of ''ABC123'') default_output_filename,
                  RequestsGet (download_url_of ''ABC123'') True,
                  FileWrite default_output_filename ''a,b'',
                  ParserCall DelimitedText default_output_filename]\<rparr>)"
    using p by metis
  from fallback_once [OF example_url_id r2] g2
  have b: "load_data_from_gdrive world_not_found example_url default_output_filename initial_state
     = (Inl DownloadError,
        \<lparr>files = Map.empty,
         trace = [GdownDownload (download_url_of ''ABC123'') default_output_filename,
                  RequestsGet (download_url_of ''ABC123'') True]\<rparr>)"
    by (simp add: initial_state_def)
  from a b show ?thesis by blast
qed

text \<open>
  C9. If the primary transport returns an output path but the destination file does not
  exist afterwards, the Fetcher returns \<open>DownloadError\<close> and the run ends there. In every
  run, a parser is called only on the destination file and only when that file exists.
\<close>

theorem missing_file_is_download_error:
  "(\<forall>file_id p fs. extract_file_id url = Some file_id
       \<and> gdown_download w (download_url_of file_id) out (files s) = (Returned (Some p), fs)
       \<and> fs out = None \<longrightarrow>
       load_data_from_gdrive w url out s
         = (Inl DownloadError,
            \<lparr>files = fs, trace = trace s @ [GdownDownload (download_url_of file_id) out]\<rparr>))
   \<and> (\<forall>p f. ParserCall p f \<in> set (new_events s (snd (load_data_from_gdrive w url out s))) \<longrightarrow>
          f = out \<and> files (snd (load_data_from_gdrive w url out s)) out \<noteq> None)"
proof -
 have first: "load_data_from_gdrive w url out s
         = (Inl DownloadError,
            \<lparr>files = fs, trace = trace s @ [GdownDownload (download_url_of file_id) out]\<rparr>)"
  if "extract_file_id url = Some file_id
       \<and> gdown_download w (download_url_of file_id) out (files s) = (Returned (Some p), fs)
       \<and> fs out = None" for file_id p fs
  using that
    by (simp add: load_data_from_gdrive_def download_stage_def log_event_def Let_def
          check_downloaded_def)
 have second: "f = out \<and> files (snd (load_data_from_gdrive w url out s)) out \<noteq> None"
  if pc: "ParserCall p f \<in> set (new_events s (snd (load_data_from_gdrive w url out s)))" for p f
  proof (cases "extract_file_id url")
    case None
    with pc show ?thesis by (simp add: load_data_from_gdrive_def new_events_def)
  next
    case (Some file_id)
    obtain r s' where d: "download_stage w (download_url_of file_id) out s = (r, s')"
      by (cases "download_stage w (download_url_of file_id) out s")
    have noparse: "ParserCall p f \<notin> set (new_events s s')"
      using d
      by (auto simp: download_stage_def check_downloaded_def log_event_def Let_def
            new_events_def split: prod.splits transport_result.splits exn.splits
            http_result.splits if_splits)
    have len: "length (trace s) \<le> length (trace s')"
      using d
      by (auto simp: download_stage_def check_downloaded_def log_event_def Let_def
            split: prod.splits transport_result.splits exn.splits
            http_result.splits if_splits)
    show ?thesis
    proof (cases r)
      case (Inl e)
      with Some d pc noparse show ?thesis by (simp add: load_data_from_gdrive_def)
    next
      case (Inr u)
      with Some d have l: "load_data_from_gdrive w url out s = load_by_extension w out s'"
        by (simp add: load_data_from_gdrive_def)
      have ex: "files s' out \<noteq> None"
        using d Inr
        by (auto simp: download_stage_def check_downloaded_def log_event_def Let_def
              split: prod.splits transport_result.splits exn.splits
              http_result.splits if_splits)
      from load_by_extension_state [of w out s'] pc noparse len have "f = out"
        unfolding l by auto
      with ex show ?thesis unfolding l by (simp add: load_by_extension_files)
    qed
  qed
  from first second show ?thesis by blast
qed

theorem missing_file_is_download_error_witness:
  "load_data_from_gdrive world_silent example_url default_output_filename initial_state
     = (Inl DownloadError,
        \<lparr>files = Map.empty,
         trace = [GdownDownload (download_url_of ''ABC123'') default_output_filename]\<rparr>)
   \<and> ParserCall DelimitedText default_output_filename
        \<in> set (new_events initial_state
                 (snd (load_data_from_gdrive world_primary example_url default_output_filename
                         initial_state)))
   \<and> files (snd (load_data_from_gdrive world_primary example_url default_output_filename
                    initial_state)) default_output_filename \<noteq> None"
proof -
  have h: "extract_file_id example_url = Some ''ABC123''
       \<and> gdown_download world_silent (download_url_of ''ABC123'') default_output_filename
            (files initial_state) = (Returned (Some default_output_filename), Map.empty)
       \<and> (Map.empty :: filesystem) default_output_filename = None"
    by (simp add: example_url_id world_silent_def initial_state_def)
  have csv: "suffix ''.csv'' default_output_filename"
    unfolding default_output_filename_def by code_simp
  have run: "load_data_from_gdrive world_primary example_url default_output_filename initial_state
     = (Inr ''a,b'',
        \<lparr>files = [default_output_filename \<mapsto> ''a,b''],
         trace = [GdownDownload (download_url_of ''ABC123'') default_output_filename,
                  ParserCall DelimitedText default_output_filename]\<rparr>)"
    by (simp add: load_data_from_gdrive_def example_url_id world_primary_download)
       (simp add: csv load_by_extension_def run_parser_def log_event_def world_primary_def)
  have pc: "ParserCall DelimitedText default_output_filename
        \<in> set (new_events initial_state
                 (snd (load_data_from_gdrive world_primary example_url default_output_filename
                         initial_state)))"
    unfolding run by (simp add: new_events_def initial_state_def)
  from missing_file_is_download_error
         [of example_url world_silent default_output_filename initial_state] h
  have a: "load_data_from_gdrive world_silent example_url default_output_filename initial_state
     = (Inl DownloadError,
        \<lparr>files = Map.empty,
         trace = [GdownDownload (download_url_of ''ABC123'') default_output_filename]\<rparr>)"
    by (simp add: initial_state_def)
  from missing_file_is_download_error
         [of example_url world_primary default_output_filename initial_state] pc
  have b: "files (snd (load_data_from_gdrive world_primary example_url default_output_filename
                    initial_state)) default_output_filename \<noteq> None"
    by blast
  from a pc b show ?thesis by blast
qed

section \<open>Properties of the Normalizer\<close>

lemma filter_label_count:
  "length (filter (\<lambda>(l, s). l = col) cols) = count_list (map fst cols) col"
  by (induction cols) auto

lemma filter_single_mem:
  assumes "filter Q xs = [x]" and "y \<in> set xs" and "Q y"
  shows "y = x"
proof -
  from assms(2,3) have "y \<in> set (filter Q xs)" by simp
  with assms(1) show ?thesis by simp
qed

lemma getitem_one:
  assumes "getitem df col = OneSeries s"
  shows "count_list (labels df) col = 1 \<and> filter (\<lambda>(l, s). l = col) (columns df) = [(col, s)]"
proof -
  from assms obtain l where f: "filter (\<lambda>(l, s). l = col) (columns df) = [(l, s)]"
    by (auto simp: getitem_def split: list.splits)
  then have "(l, s) \<in> set (filter (\<lambda>(l, s). l = col) (columns df))" by simp
  then have "l = col" by auto
  with f have "filter (\<lambda>(l, s). l = col) (columns df) = [(col, s)]" by simp
  moreover from this have "count_list (labels df) col = 1"
    using filter_label_count [of col "columns df"] by (simp add: labels_def)
  ultimately show ?thesis by blast
qed

lemma getitem_sub:
  assumes "getitem df col = SubFrame ss"
  shows "count_list (labels df) col \<noteq> 1"
proof
  assume "count_list (labels df) col = 1"
  then have "length (filter (\<lambda>(l, s). l = col) (columns df)) = 1"
    by (simp add: filter_label_count labels_def)
  then obtain x where "filter (\<lambda>(l, s). l = col) (columns df) = [x]"
    by (cases "filter (\<lambda>(l, s). l = col) (columns df)") auto
  with assms show False by (cases x) (simp add: getitem_def)
qed

lemma setitem_one:
  assumes "filter (\<lambda>(l, s). l = col) (columns df) = [(col, s)]"
    and "count_list (labels df) col = 1"
  shows "setitem df col (g s) = apply_at (\<lambda>l. g) col df"
proof -
  have "(if l = col then (l, g s) else (l, t))
          = (if l = col \<and> count_list (labels df) l = 1 then (l, g t) else (l, t))"
    if "(l, t) \<in> set (columns df)" for l t
  proof (cases "l = col")
    case True
    with that assms(1) have "(l, t) = (col, s)"
      by (intro filter_single_mem [OF assms(1)]) auto
    with True assms(2) show ?thesis by simp
  next
    case False
    then show ?thesis by simp
  qed
  then have "map (\<lambda>(l, t). if l = col then (l, g s) else (l, t)) (columns df)
     = map (\<lambda>(l, t). if l = col \<and> count_list (labels df) l = 1 then (l, g t) else (l, t)) (columns df)"
    by (intro map_cong) auto
  then show ?thesis by (simp add: setitem_def apply_at_def)
qed

lemma apply_at_not_unique:
  "count_list (labels df) col \<noteq> 1 \<Longrightarrow> apply_at f col df = df"
proof -
  assume n: "count_list (labels df) col \<noteq> 1"
  have "map (\<lambda>(l, s). if l = col \<and> count_list (labels df) l = 1 then (l, f l s) else (l, s)) (columns df)
          = map (\<lambda>x. x) (columns df)"
    using n by (intro map_cong) auto
  then show ?thesis by (simp add: apply_at_def)
qed

lemma apply_at_fix:
  assumes "\<And>s. (col, s) \<in> set (columns df) \<Longrightarrow> f col s = s"
  shows "apply_at f col df = df"
proof -
  have "map (\<lambda>(l, s). if l = col \<and> count_list (labels df) l = 1 then (l, f l s) else (l, s)) (columns df)
          = columns df"
    using assms by (intro map_idI) auto
  then show ?thesis by (simp add: apply_at_def)
qed

lemma numeric_step_apply_at:
  "numeric_step col df = apply_at (\<lambda>l. num_col) col df"
proof (cases "getitem df col")
  case (SubFrame ss)
  from getitem_sub [OF this] SubFrame show ?thesis
    by (simp add: numeric_step_def apply_at_not_unique)
next
  case (OneSeries s)
  from getitem_one [OF this] have f: "filter (\<lambda>(l, s). l = col) (columns df) = [(col, s)]"
    and c: "count_list (labels df) col = 1" by blast+
  have same: "apply_at (\<lambda>l. num_col) col df = df" if "\<not> is_float_dtype s" "\<not> is_integer_dtype s"
  proof (rule apply_at_fix)
    fix t assume "(col, t) \<in> set (columns df)"
    then have "(col, t) = (col, s)" by (intro filter_single_mem [OF f]) auto
    with that show "num_col t = t" by (simp add: num_col_def)
  qed
  show ?thesis
    using OneSeries setitem_one [OF f c, of num_col] same
    by (auto simp: numeric_step_def num_col_def)
qed

lemma dt_col_one:
  "has_keyword P col \<Longrightarrow> to_datetime P (OneSeries s) = Inr v \<Longrightarrow> dt_col P (StrLabel col) s = v"
  "has_keyword P col \<Longrightarrow> to_datetime P (OneSeries s) = Inl e \<Longrightarrow> dt_col P (StrLabel col) s = s"
  "\<not> has_keyword P col \<Longrightarrow> dt_col P (StrLabel col) s = s"
  by (simp_all add: dt_col_def)

lemma datetime_step_apply_at:
  "datetime_step P (StrLabel col) df = Inr (apply_at (dt_col P) (StrLabel col) df)"
proof (cases "has_keyword P col")
  case False
  then have "apply_at (dt_col P) (StrLabel col) df = df"
    by (intro apply_at_fix) (simp add: dt_col_one)
  with False show ?thesis by simp
next
  case True
  show ?thesis
  proof (cases "getitem df (StrLabel col)")
    case (SubFrame ss)
    from getitem_sub [OF this] SubFrame True show ?thesis
      by (simp add: apply_at_not_unique to_datetime_def)
  next
    case (OneSeries s)
    from getitem_one [OF this]
    have f: "filter (\<lambda>(l, s). l = StrLabel col) (columns df) = [(StrLabel col, s)]"
      and c: "count_list (labels df) (StrLabel col) = 1" by blast+
    show ?thesis
    proof (cases "to_datetime P (OneSeries s)")
      case (Inr v)
      with True have "dt_col P (StrLabel col) s = v" by (simp add: dt_col_one)
      with setitem_one [OF f c, of "dt_col P (StrLabel col)"]
      have "setitem df (StrLabel col) v = apply_at (\<lambda>l. dt_col P (StrLabel col)) (StrLabel col) df"
        by simp
      also have "\<dots> = apply_at (dt_col P) (StrLabel col) df"
        by (simp add: apply_at_def case_prod_unfold cong: if_cong)
      finally show ?thesis using True OneSeries Inr by simp
    next
      case (Inl e)
      have "apply_at (dt_col P) (StrLabel col) df = df"
      proof (rule apply_at_fix)
        fix t assume "(StrLabel col, t) \<in> set (columns df)"
        then have "(StrLabel col, t) = (StrLabel col, s)" by (intro filter_single_mem [OF f]) auto
        with True Inl show "dt_col P (StrLabel col) t = t" by (simp add: dt_col_one)
      qed
      with True OneSeries Inl show ?thesis by simp
    qed
  qed
qed

lemma labels_apply_at [simp]: "labels (apply_at f col df) = labels df"
  by (auto simp: labels_def apply_at_def)

lemma index_apply_at [simp]: "index (apply_at f col df) = index df"
  by (simp add: apply_at_def)

lemma labels_apply_all [simp]: "labels (apply_all f ls df) = labels df"
  by (auto simp: labels_def apply_all_def)

lemma index_apply_all [simp]: "index (apply_all f ls df) = index df"
  by (simp add: apply_all_def)

lemma foldl_apply_at:
  assumes idem: "\<And>l s. f l (f l s) = f l s"
  shows "foldl (\<lambda>d c. apply_at f c d) df ls = apply_all f ls df"
proof (induction ls arbitrary: df)
  case Nil
  have "map (\<lambda>(l, s). (l, s)) (columns df) = columns df" by (intro map_idI) auto
  then show ?case by (simp add: apply_all_def)
next
  case (Cons c cs)
  have "apply_all f cs (apply_at f c df) = apply_all f (c # cs) df"
    unfolding apply_all_def labels_apply_at
  proof -
    have "(\<lambda>(l, s). if l \<in> set cs \<and> count_list (labels df) l = 1 then (l, f l s) else (l, s))
            \<circ> (\<lambda>(l, s). if l = c \<and> count_list (labels df) l = 1 then (l, f l s) else (l, s))
          = (\<lambda>(l, s). if l \<in> set (c # cs) \<and> count_list (labels df) l = 1 then (l, f l s)
                        else (l, s))"
      by (auto simp: fun_eq_iff idem)
    then show "apply_at f c df
      \<lparr>columns := map (\<lambda>(l, s). if l \<in> set cs \<and> count_list (labels df) l = 1 then (l, f l s)
                                else (l, s)) (columns (apply_at f c df))\<rparr>
      = df\<lparr>columns := map (\<lambda>(l, s). if l \<in> set (c # cs) \<and> count_list (labels df) l = 1
                                   then (l, f l s) else (l, s)) (columns df)\<rparr>"
      by (simp add: apply_at_def)
  qed
  with Cons.IH [of "apply_at f c df"] show ?case by simp
qed

lemma datetime_loop_foldl:
  "list_all is_str ls \<Longrightarrow> datetime_loop P ls df = Inr (foldl (\<lambda>d c. apply_at (dt_col P) c d) df ls)"
proof (induction ls arbitrary: df)
  case Nil
  show ?case by simp
next
  case (Cons c cs)
  from Cons.prems obtain col where c: "c = StrLabel col" by (cases c) auto
  from Cons.prems have "list_all is_str cs" by simp
  from Cons.IH [OF this] show ?case
    by (simp add: c datetime_step_apply_at del: datetime_step.simps)
qed

lemma datetime_loop_int:
  "\<not> list_all is_str ls \<Longrightarrow> datetime_loop P ls df = Inl AttributeError"
proof (induction ls arbitrary: df)
  case Nil
  then show ?case by simp
next
  case (Cons c cs)
  show ?case
  proof (cases c)
    case (IntLabel n)
    then show ?thesis by simp
  next
    case (StrLabel col)
    with Cons.prems have "\<not> list_all is_str cs" by simp
    from Cons.IH [OF this] show ?thesis
      by (simp add: StrLabel datetime_step_apply_at del: datetime_step.simps)
  qed
qed

lemma downcast_integer_stable:
  assumes "set ys = set xs"
  shows "downcast_integer (downcast_integer d xs) ys = downcast_integer d xs"
proof -
  have "list_all (fits c) ys = list_all (fits c) xs" for c
    using assms by (simp add: list_all_iff)
  then show ?thesis
    by (cases d) (auto simp: downcast_integer_def itemsize_def)
qed

lemma num_col_idem: "num_col (num_col s) = num_col s"
  by (cases s) (simp_all add: num_col_def is_float_dtype_def is_integer_dtype_def
        downcast_integer_stable)

lemma dt_col_idem: "dt_col P l (dt_col P l s) = dt_col P l s"
  by (cases l; cases s) (auto simp: dt_col_def to_datetime_def)

lemma labels_coerced [simp]: "labels (coerced P df) = labels df"
  by (auto simp: labels_def coerced_def coerce_col_def)

lemma index_coerced [simp]: "index (coerced P df) = index df"
  by (simp add: coerced_def)

lemma apply_all_twice:
  "apply_all (dt_col P) (labels df) (apply_all (\<lambda>l. num_col) (labels df) df) = coerced P df"
proof -
  have "((\<lambda>(l, s). if l \<in> set (labels df) \<and> count_list (labels df) l = 1 then (l, dt_col P l s)
                    else (l, s))
          \<circ> (\<lambda>(l, s). if l \<in> set (labels df) \<and> count_list (labels df) l = 1 then (l, num_col s)
                      else (l, s))) x
        = coerce_col P (labels df) x" if "x \<in> set (columns df)" for x
    by (cases x) (auto simp: coerce_col_def)
  then have "map ((\<lambda>(l, s). if l \<in> set (labels df) \<and> count_list (labels df) l = 1
                            then (l, dt_col P l s) else (l, s))
          \<circ> (\<lambda>(l, s). if l \<in> set (labels df) \<and> count_list (labels df) l = 1 then (l, num_col s)
                      else (l, s))) (columns df)
        = map (coerce_col P (labels df)) (columns df)"
    by (intro map_cong) auto
  then show ?thesis
    unfolding apply_all_def [of "dt_col P"] labels_apply_all
    by (simp add: apply_all_def coerced_def)
qed

lemma prepare_taxi_data_str:
  assumes "list_all is_str (labels df)"
  shows "prepare_taxi_data P df = drop_duplicates (coerced P df)"
proof -
  have n: "foldl (\<lambda>d col. numeric_step col d) df (labels df) = apply_all (\<lambda>l. num_col) (labels df) df"
    unfolding numeric_step_apply_at by (rule foldl_apply_at) (rule num_col_idem)
  have d: "datetime_loop P (labels df) (apply_all (\<lambda>l. num_col) (labels df) df)
             = Inr (coerced P df)"
    using datetime_loop_foldl [OF assms, of P "apply_all (\<lambda>l. num_col) (labels df) df"]
      foldl_apply_at [of "dt_col P" "apply_all (\<lambda>l. num_col) (labels df) df" "labels df"]
    by (simp add: dt_col_idem apply_all_twice)
  have l: "map fst (columns (apply_all (\<lambda>l. num_col) (labels df) df)) = labels df"
    using labels_apply_all [of "\<lambda>l. num_col" "labels df" df] by (simp only: labels_def)
  show ?thesis
    unfolding prepare_taxi_data_def Let_def
    using n d l by (simp add: labels_def)
qed

lemma drop_duplicates_cases:
  "drop_duplicates df
     = (if \<not> df_empty df \<and> \<not> all_hashable df then Inl OtherException
        else Inr (deduplicated df))"
  by (simp add: drop_duplicates_def deduplicated_def Let_def)

lemma prepare_taxi_data_not_str:
  assumes "\<not> list_all is_str (labels df)"
  shows "prepare_taxi_data P df = Inl AttributeError"
proof -
  have n: "foldl (\<lambda>d col. numeric_step col d) df (labels df) = apply_all (\<lambda>l. num_col) (labels df) df"
    unfolding numeric_step_apply_at by (rule foldl_apply_at) (rule num_col_idem)
  have l: "map fst (columns (apply_all (\<lambda>l. num_col) (labels df) df)) = labels df"
    using labels_apply_all [of "\<lambda>l. num_col" "labels df" df] by (simp only: labels_def)
  show ?thesis
    unfolding prepare_taxi_data_def Let_def
    using n l datetime_loop_int [OF assms, of P "apply_all (\<lambda>l. num_col) (labels df) df"]
    by (simp add: labels_def)
qed

lemma keep_Nil [simp]: "keep [] xs = []" "keep dups [] = []"
  by (simp_all add: keep_def)

lemma keep_Cons [simp]:
  "keep (d # dups) (x # xs) = (if d then keep dups xs else x # keep dups xs)"
  by (simp add: keep_def)

lemma length_keep_le: "length (keep dups xs) \<le> length xs"
proof -
  have "length (filter (\<lambda>(dup, x). \<not> dup) (zip dups xs)) \<le> length (zip dups xs)"
    by (rule length_filter_le)
  then show ?thesis by (simp add: keep_def)
qed

lemma keep_map: "keep dups (map g xs) = map g (keep dups xs)"
proof (induction dups arbitrary: xs)
  case Nil
  show ?case by simp
next
  case (Cons d dups)
  then show ?case by (cases xs) simp_all
qed

lemma length_duplicated [simp]: "length (duplicated seen rs) = length rs"
  by (induction rs arbitrary: seen) simp_all

lemma keep_duplicated:
  "distinct (keep (duplicated seen rs) rs)
   \<and> set (keep (duplicated seen rs) rs) = set rs - set seen"
proof (induction rs arbitrary: seen)
  case Nil
  show ?case by simp
next
  case (Cons r rs)
  from Cons.IH [of "r # seen"] show ?case by auto
qed

lemma duplicated_distinct:
  "distinct rs \<Longrightarrow> set rs \<inter> set seen = {} \<Longrightarrow> duplicated seen rs = replicate (length rs) False"
  by (induction rs arbitrary: seen) auto

lemma keep_replicate_False:
  "length xs \<le> n \<Longrightarrow> keep (replicate n False) xs = xs"
proof (induction xs arbitrary: n)
  case Nil
  show ?case by simp
next
  case (Cons x xs)
  then obtain m where "n = Suc m" by (cases n) auto
  with Cons show ?case by simp
qed

lemma deduplicated_nrows: "nrows (deduplicated df) \<le> nrows df"
  by (simp add: deduplicated_def nrows_def Let_def length_keep_le)

lemma cells_take_rows: "cells (take_rows dups s) = keep dups (cells s)"
  by (cases s) (simp_all add: keep_map)

lemma dtype_of_take_rows [simp]: "dtype_of (take_rows dups s) = dtype_of s"
  by (cases s) simp_all

lemma length_cells_num_col [simp]: "length (cells (num_col s)) = length (cells s)"
  by (cases s) (simp_all add: num_col_def is_float_dtype_def is_integer_dtype_def)

lemma length_cells_dt_col [simp]: "length (cells (dt_col P l s)) = length (cells s)"
  by (cases l; cases s) (auto simp: dt_col_def to_datetime_def)

lemma well_formed_coerced: "well_formed df \<Longrightarrow> well_formed (coerced P df)"
  by (auto simp: well_formed_def coerced_def coerce_col_def list_all_iff)

lemma rows_of_column:
  assumes "well_formed df" and "k < length (columns df)"
  shows "cells (snd (columns df ! k)) = map (\<lambda>r. r ! k) (rows_of df)"
proof (rule nth_equalityI)
  from assms have len: "length (cells (snd (columns df ! k))) = length (index df)"
    by (auto simp: well_formed_def list_all_length case_prod_unfold)
  then show "length (cells (snd (columns df ! k))) = length (map (\<lambda>r. r ! k) (rows_of df))"
    by (simp add: rows_of_def)
  fix i assume "i < length (cells (snd (columns df ! k)))"
  with len have i: "i < length (index df)" by simp
  with assms(2) show "cells (snd (columns df ! k)) ! i = map (\<lambda>r. r ! k) (rows_of df) ! i"
    by (simp add: rows_of_def case_prod_unfold)
qed

lemma set_cells_take_rows:
  assumes "well_formed df" and "(l, s) \<in> set (columns df)"
  shows "set (cells (take_rows (duplicated [] (rows_of df)) s)) = set (cells s)"
proof -
  from assms(2) obtain k where k: "k < length (columns df)" and c: "columns df ! k = (l, s)"
    by (auto simp: in_set_conv_nth)
  from rows_of_column [OF assms(1) k] c
  have cs: "cells s = map (\<lambda>r. r ! k) (rows_of df)" by simp
  have "set (keep (duplicated [] (rows_of df)) (rows_of df)) = set (rows_of df)"
    using keep_duplicated [of "[]" "rows_of df"] by simp
  then show ?thesis
    unfolding cells_take_rows cs keep_map by simp
qed

lemma int_cells_set:
  assumes "set (map (IntCell :: int \<Rightarrow> 'f cell) ys) = set (map IntCell xs)"
  shows "set ys = set xs"
proof -
  from assms have "(IntCell :: int \<Rightarrow> 'f cell) ` set ys = IntCell ` set xs"
    by (simp only: set_map)
  moreover have "inj (IntCell :: int \<Rightarrow> 'f cell)" by (simp add: inj_def)
  ultimately show ?thesis by (metis inj_image_eq_iff)
qed

lemma num_col_datetime [simp]: "num_col (DatetimeSeries ts) = DatetimeSeries ts"
  by (simp add: num_col_def is_float_dtype_def is_integer_dtype_def)

lemma dt_col_datetime [simp]: "dt_col P l (DatetimeSeries ts) = DatetimeSeries ts"
  by (cases l) (simp_all add: dt_col_def to_datetime_def)

lemma dt_col_raises:
  "to_datetime_raises P s \<Longrightarrow> dt_col P l s = s"
  by (cases l; cases s) (simp_all add: dt_col_def to_datetime_def)

lemma num_col_same_values:
  assumes "dtype_of t' = dtype_of (num_col s)" and "set (cells t') = set (cells (num_col s))"
  shows "num_col t' = t'"
proof (cases s)
  case (IntSeries d xs)
  with assms(1) obtain ys where t': "t' = IntSeries (downcast_integer d xs) ys"
    by (cases t') (auto simp: num_col_def is_float_dtype_def is_integer_dtype_def)
  with assms(2) IntSeries have "set ys = set xs"
    by (intro int_cells_set) (simp add: num_col_def is_float_dtype_def is_integer_dtype_def)
  then show ?thesis
    by (simp add: t' num_col_def is_float_dtype_def is_integer_dtype_def downcast_integer_stable)
qed (use assms(1) in \<open>cases t'; simp add: num_col_def is_float_dtype_def is_integer_dtype_def\<close>)+

lemma coerce_same_values:
  assumes st: "raising_depends_on_values P"
    and d: "dtype_of t' = dtype_of (dt_col P l (num_col s))"
    and v: "set (cells t') = set (cells (dt_col P l (num_col s)))"
  shows "dt_col P l (num_col t') = t'"
proof (cases "dt_col P l (num_col s) = num_col s")
  case True
  with d v have n: "num_col t' = t'" by (intro num_col_same_values [of t' s]) simp_all
  show ?thesis
  proof (cases "\<exists>ts. num_col s = DatetimeSeries ts")
    case True
    then obtain ts where "num_col s = DatetimeSeries ts" by blast
    with d \<open>dt_col P l (num_col s) = num_col s\<close> obtain ts' where "t' = DatetimeSeries ts'"
      by (cases t') auto
    then show ?thesis by simp
  next
    case False
    from st d v \<open>dt_col P l (num_col s) = num_col s\<close>
    have r: "to_datetime_raises P t' = to_datetime_raises P (num_col s)"
      unfolding raising_depends_on_values_def by metis
    from False d \<open>dt_col P l (num_col s) = num_col s\<close> have nd: "\<nexists>ts. t' = DatetimeSeries ts"
      by (cases "num_col s") auto
    show ?thesis
    proof (cases l)
      case (IntLabel n')
      then show ?thesis by (simp add: n dt_col_def)
    next
      case (StrLabel col)
      show ?thesis
      proof (cases "has_keyword P col")
        case False
        with StrLabel show ?thesis by (simp add: n dt_col_def)
      next
        case kw: True
        have "to_datetime_raises P (num_col s)"
        proof (rule ccontr)
          assume "\<not> to_datetime_raises P (num_col s)"
          with kw StrLabel False have "\<exists>ts. dt_col P l (num_col s) = DatetimeSeries ts"
            by (cases "num_col s") (auto simp: dt_col_def to_datetime_def)
          with \<open>dt_col P l (num_col s) = num_col s\<close> False show False by simp
        qed
        with r have "to_datetime_raises P t'" by simp
        then show ?thesis unfolding n by (rule dt_col_raises)
      qed
    qed
  qed
next
  case False
  then obtain ts where ts: "dt_col P l (num_col s) = DatetimeSeries ts"
    by (cases l; cases "num_col s") (auto simp: dt_col_def to_datetime_def split: if_splits)
  with d obtain ts' where t': "t' = DatetimeSeries ts'" by (cases t') auto
  then show ?thesis by simp
qed

lemma length_rows_of [simp]: "length (rows_of df) = length (index df)"
  by (simp add: rows_of_def)

lemma well_formed_col:
  "well_formed df \<Longrightarrow> (l, s) \<in> set (columns df) \<Longrightarrow> length (cells s) = length (index df)"
  by (auto simp: well_formed_def list_all_iff)

lemma rows_of_mk:
  "rows_of \<lparr>index = idx, columns = cols\<rparr>
     = map (\<lambda>i. map (\<lambda>(l, s). cells s ! i) cols) [0..<length idx]"
  by (simp add: rows_of_def)

lemma kept_Cons: "kept (d # dups) = (if d then [] else [0]) @ map Suc (kept dups)"
proof -
  have "[0..<length (d # dups)] = 0 # map Suc [0..<length dups]"
    by (simp add: upt_conv_Cons map_Suc_upt del: upt_Suc)
  then show ?thesis
    by (simp add: kept_def filter_map comp_def del: upt_Suc)
qed

lemma keep_nth:
  "length xs = length dups \<Longrightarrow> keep dups xs = map ((!) xs) (kept dups)"
proof (induction dups arbitrary: xs)
  case Nil
  then show ?case by (simp add: kept_def)
next
  case (Cons d dups)
  then obtain y ys where xs: "xs = y # ys" by (cases xs) auto
  with Cons.prems have "length ys = length dups" by simp
  from Cons.IH [OF this] show ?case by (simp add: xs kept_Cons comp_def)
qed

lemma kept_less: "j \<in> set (kept dups) \<Longrightarrow> j < length dups"
  by (simp add: kept_def)

lemma rows_of_deduplicated:
  assumes wf: "well_formed df" and ne: "\<not> df_empty df"
  shows "rows_of (deduplicated df) = keep (duplicated [] (rows_of df)) (rows_of df)"
proof -
  let ?d = "duplicated [] (rows_of df)"
  let ?n = "length (index df)"
  have ld: "length ?d = ?n" by (simp add: rows_of_def)
  have li: "length (keep ?d (index df)) = length (kept ?d)"
    using keep_nth [of "index df" ?d] ld by simp
  have col: "cells (take_rows ?d s) ! i = cells s ! (kept ?d ! i)"
    if "(l, s) \<in> set (columns df)" "i < length (kept ?d)" for l s i
  proof -
    from well_formed_col [OF wf that(1)] have "length (cells s) = length ?d"
      by simp
    from keep_nth [OF this] that(2) show ?thesis by (simp add: cells_take_rows)
  qed
  have dd: "deduplicated df
        = \<lparr>index = keep ?d (index df), columns = map (\<lambda>(l, s). (l, take_rows ?d s)) (columns df)\<rparr>"
    using ne by (simp add: deduplicated_def Let_def)
  have "rows_of (deduplicated df)
          = map (\<lambda>i. map (\<lambda>(l, s). cells (take_rows ?d s) ! i) (columns df)) [0..<length (kept ?d)]"
    unfolding dd rows_of_mk li by (simp add: comp_def case_prod_unfold)
  also have "\<dots> = map (\<lambda>i. map (\<lambda>(l, s). cells s ! (kept ?d ! i)) (columns df)) [0..<length (kept ?d)]"
    using col by (intro map_cong refl) auto
  also have "\<dots> = map (\<lambda>j. map (\<lambda>(l, s). cells s ! j) (columns df)) (map ((!) (kept ?d)) [0..<length (kept ?d)])"
    by (simp add: comp_def)
  also have "\<dots> = map (\<lambda>j. map (\<lambda>(l, s). cells s ! j) (columns df)) (kept ?d)"
    by (simp only: map_nth)
  also have "\<dots> = map ((!) (rows_of df)) (kept ?d)"
    using kept_less [of _ ?d] ld by (intro map_cong refl) (simp add: rows_of_def)
  also have "\<dots> = keep ?d (rows_of df)"
    using keep_nth [of "rows_of df" ?d] by (simp add: rows_of_def)
  finally show ?thesis .
qed

lemma well_formed_deduplicated:
  assumes "well_formed df"
  shows "well_formed (deduplicated df)"
proof (cases "df_empty df")
  case True
  with assms show ?thesis by (simp add: deduplicated_def)
next
  case False
  let ?d = "duplicated [] (rows_of df)"
  have ld: "length ?d = length (index df)" by (simp add: rows_of_def)
  have "length (cells (take_rows ?d s)) = length (keep ?d (index df))"
    if "(l, s) \<in> set (columns df)" for l s
  proof -
    from well_formed_col [OF assms that] have "length (cells s) = length ?d"
      by simp
    then show ?thesis
      using keep_nth [of "cells s" ?d] keep_nth [of "index df" ?d] ld
      by (simp add: cells_take_rows)
  qed
  with False show ?thesis
    by (auto simp: well_formed_def deduplicated_def Let_def list_all_iff)
qed

lemma deduplicated_idem:
  assumes wf: "well_formed df"
  shows "deduplicated (deduplicated df) = deduplicated df"
proof (cases "df_empty df")
  case True
  then show ?thesis by (simp add: deduplicated_def)
next
  case False
  let ?df' = "deduplicated df"
  show ?thesis
  proof (cases "df_empty ?df'")
    case True
    then show ?thesis by (simp add: deduplicated_def [of ?df'])
  next
    case ne': False
    have wf': "well_formed ?df'" by (rule well_formed_deduplicated [OF wf])
    have "distinct (rows_of ?df')"
      unfolding rows_of_deduplicated [OF wf False]
      using keep_duplicated [of "[]" "rows_of df"] by blast
    then have d: "duplicated [] (rows_of ?df') = replicate (length (index ?df')) False"
      using duplicated_distinct [of "rows_of ?df'" "[]"] by (simp add: rows_of_def)
    have c: "take_rows (replicate (length (index ?df')) False) s = s"
      if "(l, s) \<in> set (columns ?df')" for l s
    proof -
      from well_formed_col [OF wf' that] have "length (cells s) = length (index ?df')" .
      then show ?thesis by (cases s) (simp_all add: keep_replicate_False)
    qed
    have "map (\<lambda>(l, s). (l, take_rows (replicate (length (index ?df')) False) s)) (columns ?df')
            = columns ?df'"
      using c by (intro map_idI) auto
    then show ?thesis
      using ne' by (simp add: deduplicated_def [of ?df'] Let_def d keep_replicate_False)
  qed
qed

lemma set_keep_subset: "set (keep dups xs) \<subseteq> set xs"
proof (induction dups arbitrary: xs)
  case Nil
  show ?case by simp
next
  case (Cons d dups)
  from Cons.IH show ?case by (cases xs) auto
qed

lemma hashable_num_col: "list_all hashable_cell (cells (num_col s)) = list_all hashable_cell (cells s)"
  by (cases s) (simp_all add: num_col_def is_float_dtype_def is_integer_dtype_def list_all_iff)

lemma hashable_dt_col:
  "list_all hashable_cell (cells s) \<Longrightarrow> list_all hashable_cell (cells (dt_col P l s))"
  by (cases l; cases s) (auto simp: dt_col_def to_datetime_def list_all_iff)

lemma all_hashable_col:
  "all_hashable df \<Longrightarrow> (l, s) \<in> set (columns df) \<Longrightarrow> list_all hashable_cell (cells s)"
  by (auto simp: all_hashable_def list_all_iff)

lemma all_hashableI:
  assumes "\<And>l s. (l, s) \<in> set (columns df) \<Longrightarrow> list_all hashable_cell (cells s)"
  shows "all_hashable df"
  using assms unfolding all_hashable_def list_all_iff [of _ "columns df"] by auto

lemma all_hashable_coerced:
  assumes "all_hashable df"
  shows "all_hashable (coerced P df)"
proof (rule all_hashableI)
  fix l t assume "(l, t) \<in> set (columns (coerced P df))"
  then obtain s where s: "(l, s) \<in> set (columns df)"
    and t: "t = (if count_list (labels df) l = 1 then dt_col P l (num_col s) else s)"
    by (auto simp: coerced_def coerce_col_def)
  from all_hashable_col [OF assms s] have "list_all hashable_cell (cells s)" .
  then show "list_all hashable_cell (cells t)"
    unfolding t using hashable_dt_col [of "num_col s" P l] by (simp add: hashable_num_col)
qed

lemma all_hashable_deduplicated:
  assumes "all_hashable df"
  shows "all_hashable (deduplicated df)"
proof (rule all_hashableI)
  fix l t assume m: "(l, t) \<in> set (columns (deduplicated df))"
  show "list_all hashable_cell (cells t)"
  proof (cases "df_empty df")
    case True
    with m assms show ?thesis by (simp add: deduplicated_def all_hashable_col)
  next
    case False
    with m obtain s where s: "(l, s) \<in> set (columns df)"
      and t: "t = take_rows (duplicated [] (rows_of df)) s"
      by (auto simp: deduplicated_def)
    from all_hashable_col [OF assms s] have "list_all hashable_cell (cells s)" .
    then show ?thesis
      unfolding t cells_take_rows
      using set_keep_subset [of "duplicated [] (rows_of df)" "cells s"]
      by (auto simp: list_all_iff)
  qed
qed

lemma example_run: "prepare_taxi_data example_pandas example_df = Inr example_clean"
  by code_simp

lemma example_wf: "well_formed example_df"
  by code_simp

lemma example_stable: "raising_depends_on_values example_pandas"
  by (simp add: raising_depends_on_values_def example_pandas_def)

lemma columns_deduplicated:
  "columns (deduplicated df) = map (\<lambda>(l, s). (l, dedup_series df s)) (columns df)"
proof (cases "df_empty df")
  case True
  have "map (\<lambda>(l, s). (l, s)) (columns df) = columns df" by (intro map_idI) auto
  with True show ?thesis by (simp add: deduplicated_def dedup_series_def)
next
  case False
  then show ?thesis by (simp add: deduplicated_def dedup_series_def Let_def)
qed

lemma prepare_taxi_data_hashable:
  assumes "list_all is_str (labels df)" and "all_hashable df"
  shows "prepare_taxi_data P df = Inr (deduplicated (coerced P df))"
  using prepare_taxi_data_str [OF assms(1), of P] all_hashable_coerced [OF assms(2), of P]
  by (simp add: drop_duplicates_cases)

lemma dt_col_cases:
  "dt_col P (StrLabel col) s
     = (if has_keyword P col \<and> dtype_of s \<noteq> Datetime_dtype \<and> \<not> to_datetime_raises P s
        then DatetimeSeries (map (to_timestamp P s) (cells s))
        else s)"
  by (cases s) (simp_all add: dt_col_def to_datetime_def)

lemma cells_num_col: "cells (num_col s) = cells s"
  by (cases s) (simp_all add: num_col_def is_float_dtype_def is_integer_dtype_def)

section \<open>Claims about the Normalizer\<close>

text \<open>
  C1. The Normalizer is idempotent: when it returns a table for a well-formed table,
  it returns that same table when applied to it once more. The removal of duplicates
  finds nothing to remove, the integer dtype chosen by the first run is chosen again (the
  removal of duplicate rows does not change which values occur in a column), a timestamp
  column is returned as it is, and a column that \<open>to_datetime\<close> rejected is rejected again.
  The last point is the assumption on the library stated as \<open>raising_depends_on_values\<close>.
\<close>

theorem normalizer_idempotent:
  assumes wf: "well_formed df"
    and st: "raising_depends_on_values P"
    and run: "prepare_taxi_data P df = Inr df'"
  shows "prepare_taxi_data P df' = Inr df'"
proof -
  have str: "list_all is_str (labels df)"
  proof (rule ccontr)
    assume "\<not> list_all is_str (labels df)"
    from prepare_taxi_data_not_str [OF this, of P] run show False by simp
  qed
  let ?df2 = "coerced P df"
  from prepare_taxi_data_str [OF str, of P] run have dd: "drop_duplicates ?df2 = Inr df'" by simp
  then have df': "df' = deduplicated ?df2" and ok: "df_empty ?df2 \<or> all_hashable ?df2"
    by (auto simp: drop_duplicates_cases split: if_splits)
  have wf2: "well_formed ?df2" by (rule well_formed_coerced [OF wf])
  have lab: "labels df' = labels df"
    unfolding df' by (auto simp: deduplicated_def Let_def labels_def coerced_def coerce_col_def)
  have fixed: "coerce_col P (labels df) (l, t') = (l, t')" if m: "(l, t') \<in> set (columns df')" for l t'
  proof (cases "count_list (labels df) l = 1")
    case False
    then show ?thesis by (simp add: coerce_col_def)
  next
    case True
    have "\<exists>s. dtype_of t' = dtype_of (dt_col P l (num_col s))
             \<and> set (cells t') = set (cells (dt_col P l (num_col s)))"
    proof (cases "df_empty ?df2")
      case True
      with m df' have "(l, t') \<in> set (columns ?df2)" by (simp add: deduplicated_def)
      then obtain s where "(l, t') = coerce_col P (labels df) (l, s)"
        by (auto simp: coerced_def coerce_col_def)
      with \<open>count_list (labels df) l = 1\<close> have "t' = dt_col P l (num_col s)"
        by (simp add: coerce_col_def)
      then show ?thesis by blast
    next
      case False
      with m df' obtain t where t: "(l, t) \<in> set (columns ?df2)"
        and t': "t' = take_rows (duplicated [] (rows_of ?df2)) t"
        by (auto simp: deduplicated_def Let_def)
      from t obtain s where "(l, t) = coerce_col P (labels df) (l, s)"
        by (auto simp: coerced_def coerce_col_def)
      with \<open>count_list (labels df) l = 1\<close> have ts: "t = dt_col P l (num_col s)"
        by (simp add: coerce_col_def)
      from set_cells_take_rows [OF wf2 t] t' have "set (cells t') = set (cells t)" by simp
      moreover from t' have "dtype_of t' = dtype_of t" by simp
      ultimately show ?thesis using ts by blast
    qed
    then obtain s where "dtype_of t' = dtype_of (dt_col P l (num_col s))"
      and "set (cells t') = set (cells (dt_col P l (num_col s)))" by blast
    from coerce_same_values [OF st this] True show ?thesis by (simp add: coerce_col_def)
  qed
  have "map (coerce_col P (labels df)) (columns df') = columns df'"
    using fixed by (intro map_idI) auto
  then have c: "coerced P df' = df'" by (simp add: coerced_def lab)
  from str lab have "list_all is_str (labels df')" by simp
  from prepare_taxi_data_str [OF this, of P]
  have run2: "prepare_taxi_data P df' = drop_duplicates df'" by (simp add: c)
  have "df_empty df' \<or> all_hashable df'"
  proof (cases "df_empty ?df2")
    case True
    then show ?thesis by (simp add: df' deduplicated_def)
  next
    case False
    with ok have "all_hashable ?df2" by simp
    then show ?thesis unfolding df' by (simp add: all_hashable_deduplicated)
  qed
  then have "drop_duplicates df' = Inr (deduplicated df')"
    by (auto simp: drop_duplicates_cases)
  also have "deduplicated df' = df'"
    unfolding df' by (rule deduplicated_idem [OF wf2])
  finally show ?thesis using run2 by simp
qed

theorem normalizer_idempotent_witness:
  "well_formed example_df \<and> raising_depends_on_values example_pandas
   \<and> prepare_taxi_data example_pandas example_df = Inr example_clean
   \<and> prepare_taxi_data example_pandas example_clean = Inr example_clean"
  using normalizer_idempotent [OF example_wf example_stable example_run]
    example_wf example_stable example_run by blast



text \<open>
  C6. On a table whose column labels are all strings and whose values can all be hashed
  (numbers, texts, timestamps, missing values), the Normalizer returns a table and never
  raises, for every behaviour \<open>P\<close> of the library. The result has the labels of the input
  and at most its rows, and every column of it is described by the input column: a value
  that \<open>to_datetime\<close> cannot parse becomes \<open>NaT\<close>, an exception of \<open>to_datetime\<close> for a whole
  column leaves that column as it was, and the numeric coercion keeps every value.
\<close>

theorem normalizer_total_on_hashable_named_columns:
  assumes str: "list_all is_str (labels df)"
    and hash: "all_hashable df"
  shows "\<exists>out. prepare_taxi_data P df = Inr out
           \<and> labels out = labels df \<and> nrows out \<le> nrows df
           \<and> (\<forall>k col s. k < length (columns df) \<and> columns df ! k = (StrLabel col, s) \<longrightarrow>
                 columns out ! k
                   = (StrLabel col,
                      dedup_series (coerced P df)
                        (if count_list (labels df) (StrLabel col) \<noteq> 1 then s
                         else if has_keyword P col \<and> dtype_of (num_col s) \<noteq> Datetime_dtype
                                 \<and> \<not> to_datetime_raises P (num_col s)
                         then DatetimeSeries (map (to_timestamp P (num_col s)) (cells (num_col s)))
                         else num_col s))
                 \<and> cells (num_col s) = cells s)"
proof -
  let ?out = "deduplicated (coerced P df)"
  from prepare_taxi_data_hashable [OF str hash]
  have run: "prepare_taxi_data P df = Inr ?out" .
  have lab: "labels ?out = labels df"
    by (auto simp: deduplicated_def labels_def coerced_def coerce_col_def)
  have rows: "nrows ?out \<le> nrows df"
    using deduplicated_nrows [of "coerced P df"] by (simp add: nrows_def)
  have col: "columns ?out ! k
                   = (StrLabel col,
                      dedup_series (coerced P df)
                        (if count_list (labels df) (StrLabel col) \<noteq> 1 then s
                         else if has_keyword P col \<and> dtype_of (num_col s) \<noteq> Datetime_dtype
                                 \<and> \<not> to_datetime_raises P (num_col s)
                         then DatetimeSeries (map (to_timestamp P (num_col s)) (cells (num_col s)))
                         else num_col s))
             \<and> cells (num_col s) = cells s"
    if "k < length (columns df) \<and> columns df ! k = (StrLabel col, s)" for k col s
  proof -
    from that have k: "k < length (columns df)" and c: "columns df ! k = (StrLabel col, s)"
      by blast+
    have "columns ?out ! k
      = (\<lambda>(l, s). (l, dedup_series (coerced P df) s)) (coerce_col P (labels df) (columns df ! k))"
      unfolding columns_deduplicated using k by (simp add: coerced_def)
    then show ?thesis
      unfolding c by (auto simp: coerce_col_def dt_col_cases cells_num_col)
  qed
  from run lab rows col show ?thesis by blast
qed

theorem normalizer_total_on_hashable_named_columns_witness:
  "list_all is_str (labels example_df) \<and> all_hashable example_df
   \<and> prepare_taxi_data example_pandas example_df = Inr example_clean
   \<and> labels example_clean = labels example_df
   \<and> nrows example_clean = 4 \<and> nrows example_df = 5
   \<and> columns example_clean ! 0 = (StrLabel ''VendorID'', IntSeries Int8 [1, 2, 1, 2])"
proof -
  have s: "list_all is_str (labels example_df)" by code_simp
  have h: "all_hashable example_df" by code_simp
  have p: "0 < length (columns example_df)
           \<and> columns example_df ! 0 = (StrLabel ''VendorID'', IntSeries Int64 [1, 2, 1, 1, 2])"
    by code_simp
  have e: "dedup_series (coerced example_pandas example_df)
             (if count_list (labels example_df) (StrLabel ''VendorID'') \<noteq> 1
              then IntSeries Int64 [1, 2, 1, 1, 2]
              else if has_keyword example_pandas ''VendorID''
                      \<and> dtype_of (num_col (IntSeries Int64 [1, 2, 1, 1, 2])) \<noteq> Datetime_dtype
                      \<and> \<not> to_datetime_raises example_pandas (num_col (IntSeries Int64 [1, 2, 1, 1, 2]))
              then DatetimeSeries (map (to_timestamp example_pandas (num_col (IntSeries Int64 [1, 2, 1, 1, 2])))
                                    (cells (num_col (IntSeries Int64 [1, 2, 1, 1, 2]))))
              else num_col (IntSeries Int64 [1, 2, 1, 1, 2]))
           = IntSeries Int8 [1, 2, 1, 2]"
    by code_simp
  have n: "nrows example_clean = 4 \<and> nrows example_df = 5" by code_simp
  from normalizer_total_on_hashable_named_columns [OF s h, of example_pandas] example_run
  have "labels example_clean = labels example_df
        \<and> (\<forall>k col s. k < length (columns example_df) \<and> columns example_df ! k = (StrLabel col, s) \<longrightarrow>
                 columns example_clean ! k
                   = (StrLabel col,
                      dedup_series (coerced example_pandas example_df)
                        (if count_list (labels example_df) (StrLabel col) \<noteq> 1 then s
                         else if has_keyword example_pandas col \<and> dtype_of (num_col s) \<noteq> Datetime_dtype
                                 \<and> \<not> to_datetime_raises example_pandas (num_col s)
                         then DatetimeSeries (map (to_timestamp example_pandas (num_col s)) (cells (num_col s)))
                         else num_col s))
                 \<and> cells (num_col s) = cells s)"
    by auto
  then have l: "labels example_clean = labels example_df"
    and a: "\<And>k col s. k < length (columns example_df) \<and> columns example_df ! k = (StrLabel col, s) \<Longrightarrow>
                 columns example_clean ! k
                   = (StrLabel col,
                      dedup_series (coerced example_pandas example_df)
                        (if count_list (labels example_df) (StrLabel col) \<noteq> 1 then s
                         else if has_keyword example_pandas col \<and> dtype_of (num_col s) \<noteq> Datetime_dtype
                                 \<and> \<not> to_datetime_raises example_pandas (num_col s)
                         then DatetimeSeries (map (to_timestamp example_pandas (num_col s)) (cells (num_col s)))
                         else num_col s))"
    by blast+
  from a [OF p] have c: "columns example_clean ! 0 = (StrLabel ''VendorID'', IntSeries Int8 [1, 2, 1, 2])"
    unfolding e .
  from s h example_run l n c show ?thesis by blast
qed

text \<open>
  Both restrictions are needed. A table with an integer column label, as \<open>read_excel\<close>
  produces for a numeric header cell, makes \<open>col.lower()\<close> of line 152 raise
  \<open>AttributeError\<close>, outside the \<open>try\<close> of line 153. A table with a column of lists, as
  \<open>read_parquet\<close> produces, makes \<open>drop_duplicates\<close> of line 161 raise \<open>TypeError\<close>.
\<close>

theorem normalizer_raises_on_numeric_header:
  "prepare_taxi_data example_pandas numeric_header_df = Inl AttributeError"
  by code_simp

lemma normalizer_raises_on_list_column:
  "list_all is_str (labels list_column_df)
   \<and> prepare_taxi_data example_pandas list_column_df = Inl OtherException"
  by code_simp

text \<open>
  C7. When the Normalizer returns, its result has at most as many rows as its input:
  the coercions keep the index, and the removal of duplicates only removes rows.
\<close>

theorem row_count_monotone:
  assumes "prepare_taxi_data P df = Inr df'"
  shows "nrows df' \<le> nrows df"
proof (cases "list_all is_str (labels df)")
  case True
  from prepare_taxi_data_str [OF True, of P] assms
  have "df' = deduplicated (coerced P df)"
    by (auto simp: drop_duplicates_cases split: if_splits)
  then show ?thesis
    using deduplicated_nrows [of "coerced P df"] by (simp add: nrows_def)
next
  case False
  from prepare_taxi_data_not_str [OF False, of P] assms show ?thesis by simp
qed

theorem row_count_monotone_witness:
  "prepare_taxi_data example_pandas example_df = Inr example_clean
   \<and> nrows example_clean = 4 \<and> nrows example_df = 5"
  using row_count_monotone [OF example_run] example_run
  by (simp add: nrows_def example_clean_def example_df_def)

end
